theory Spec2Isabelle
  imports Main "HOL-Library.Word"
begin

unbundle bit_operations_syntax

section \<open>BitNet sparse ternary FMA: encoder, dense kernel, weight cache\<close>

text \<open>
  A shallow embedding of \<^verbatim>\<open>ggml-bitnet-stfma-cache.c\<close>,
  \<^verbatim>\<open>ggml-bitnet-stfma-avx512.cpp\<close> and \<^verbatim>\<open>ggml-bitnet-stfma-inference.cpp\<close>.
  Bytes are \<open>8 word\<close>, the kernel's lanes are \<open>32 word\<close> (arithmetic wraps, as the
  AVX-512 integer instructions do), \<^verbatim>\<open>size_t\<close> counters of the cache are \<open>64 word\<close>.
\<close>

type_synonym uint8_t = "8 word"
type_synonym int8_t = "8 word"
type_synonym uint32_t = "32 word"
type_synonym int32_t = "32 word"
type_synonym size_t = "64 word"

subsection \<open>Encoder (\<^verbatim>\<open>convert_bitnet_to_stfma_byte\<close>)\<close>

text \<open>
  The branchless conversion of one packed byte, statement by statement. The C code
  computes \<^verbatim>\<open>~xor_result\<close> and \<^verbatim>\<open>out_high << 1\<close> in \<^verbatim>\<open>int\<close> and stores them back
  into a \<^verbatim>\<open>uint8_t\<close>; on \<open>8 word\<close> the complement and the shift are already
  truncated to eight bits, which is the stored value.
\<close>

definition convert_bitnet_to_stfma_byte :: "uint8_t \<Rightarrow> uint8_t" where
  "convert_bitnet_to_stfma_byte b =
     (let low_bits = b AND 0x55;
          high_bits = b AND 0xAA;
          out_low = drop_bit 1 high_bits;
          high_bits_shifted = drop_bit 1 high_bits;
          xor_result = high_bits_shifted XOR low_bits;
          out_high = (NOT xor_result) AND 0x55;
          out_high = push_bit 1 out_high
      in out_high OR out_low)"

text \<open>
  The 2-bit field \<open>k\<close> of a packed byte (bit offsets 0, 2, 4, 6, least significant
  first), as the scalar path of the inference file reads it:
  \<^verbatim>\<open>(byte >> (trit_idx * 2)) & 0x3\<close>.
\<close>

definition field :: "uint8_t \<Rightarrow> nat \<Rightarrow> uint8_t" where
  "field b k = drop_bit (k * 2) b AND 0x3"

text \<open>
  The specification's wording of the transform, used only to compare the code with it:
  a field \<open>(hi, lo)\<close> becomes \<open>(hi', lo')\<close> with \<open>lo' = hi\<close> and
  \<open>hi' = NOT (hi XOR lo)\<close>; a byte is transformed field by field.
\<close>

definition encode_field_spec :: "uint8_t \<Rightarrow> uint8_t" where
  "encode_field_spec f =
     (let hi = bit f 1; lo = bit f 0;
          lo' = hi;
          hi' = (\<not> (hi \<noteq> lo))
      in (if hi' then 2 else 0) OR (if lo' then 1 else 0))"

definition encode_byte_spec :: "uint8_t \<Rightarrow> uint8_t" where
  "encode_byte_spec b =
     encode_field_spec (field b 0) OR
     push_bit 2 (encode_field_spec (field b 1)) OR
     push_bit 4 (encode_field_spec (field b 2)) OR
     push_bit 6 (encode_field_spec (field b 3))"

text \<open>The specification's bit-plane wording of the same transform.\<close>

definition encode_byte_bitplane_spec :: "uint8_t \<Rightarrow> uint8_t" where
  "encode_byte_bitplane_spec b =
     (let L = b AND 0x55;
          H = b AND 0xAA;
          out_lo_bits = drop_bit 1 H;
          xnor_term = drop_bit 1 H XOR L;
          out_hi_bits = push_bit 1 ((NOT xnor_term) AND 0x55)
      in out_hi_bits OR out_lo_bits)"

text \<open>A valid ternary field holds 0, 1 or 2; a valid byte holds four of them.\<close>

definition valid_field :: "uint8_t \<Rightarrow> bool" where
  "valid_field f = (f = 0 \<or> f = 1 \<or> f = 2)"

definition valid_byte :: "uint8_t \<Rightarrow> bool" where
  "valid_byte b =
     (valid_field (field b 0) \<and> valid_field (field b 1) \<and>
      valid_field (field b 2) \<and> valid_field (field b 3))"

subsection \<open>AVX-512 kernel (\<^verbatim>\<open>ggml-bitnet-stfma-avx512.cpp\<close>)\<close>

text \<open>
  A \<^verbatim>\<open>__m512i\<close> holding sixteen 32-bit lanes is the list of its lanes, lane 0 first;
  a 256-bit or 128-bit vector is the list of its eight or four lanes. Every intrinsic
  the kernel uses is a definition of its own, with the lane-wise meaning of Intel's
  reference. Memory is an address space: \<open>weights p\<close> is the byte at offset \<open>p\<close>
  from the pointer, \<open>activations i\<close> the 32-bit element at index \<open>i\<close>; what lies
  past the caller's buffer is whatever that function returns there. The kernel state
  records every offset that is loaded, so that claims about reads are statements
  about the model.

  The element count \<^verbatim>\<open>size_t n\<close> and the index \<^verbatim>\<open>size_t i\<close> are \<open>nat\<close>: an array of
  \<open>n\<close> 32-bit activations exists in memory, so \<open>4 * n\<close> is below \<open>2 ^ 64\<close> and
  \<^verbatim>\<open>i + 16\<close> cannot wrap.
\<close>

type_synonym m512i = "int32_t list"
type_synonym mmask16 = "16 word"

definition mm512_set1_epi32 :: "int32_t \<Rightarrow> m512i" where
  "mm512_set1_epi32 a = replicate 16 a"

definition mm512_setzero_si512 :: m512i where
  "mm512_setzero_si512 = replicate 16 0"

definition mm512_srlv_epi32 :: "m512i \<Rightarrow> m512i \<Rightarrow> m512i" where
  "mm512_srlv_epi32 a cnt =
     map2 (\<lambda>x c. if unat c < 32 then drop_bit (unat c) x else 0) a cnt"

definition mm512_and_si512 :: "m512i \<Rightarrow> m512i \<Rightarrow> m512i" where
  "mm512_and_si512 a b = map2 (AND) a b"

definition mm512_sub_epi32 :: "m512i \<Rightarrow> m512i \<Rightarrow> m512i" where
  "mm512_sub_epi32 a b = map2 (-) a b"

definition mm512_add_epi32 :: "m512i \<Rightarrow> m512i \<Rightarrow> m512i" where
  "mm512_add_epi32 a b = map2 (+) a b"

definition mm512_mullo_epi32 :: "m512i \<Rightarrow> m512i \<Rightarrow> m512i" where
  "mm512_mullo_epi32 a b = map2 (*) a b"

text \<open>Zero-masked multiply: lane \<open>k\<close> is the product when mask bit \<open>k\<close> is set, else 0.\<close>

definition mm512_maskz_mullo_epi32 :: "mmask16 \<Rightarrow> m512i \<Rightarrow> m512i \<Rightarrow> m512i" where
  "mm512_maskz_mullo_epi32 k a b =
     map2 (\<lambda>j p. if bit k j then p else 0) [0..<16] (map2 (*) a b)"

text \<open>
  Loads return the loaded value and the offsets they touch. A zero-masked load
  touches only the elements whose mask bit is set (masked-off elements are neither
  read nor faulted on).
\<close>

definition mm512_loadu_si512 :: "(nat \<Rightarrow> int32_t) \<Rightarrow> nat \<Rightarrow> m512i \<times> nat list" where
  "mm512_loadu_si512 mem i = (map (\<lambda>j. mem (i + j)) [0..<16], map (\<lambda>j. i + j) [0..<16])"

definition mm512_maskz_loadu_epi32 ::
    "mmask16 \<Rightarrow> (nat \<Rightarrow> int32_t) \<Rightarrow> nat \<Rightarrow> m512i \<times> nat list" where
  "mm512_maskz_loadu_epi32 k mem i =
     (map (\<lambda>j. if bit k j then mem (i + j) else 0) [0..<16],
      map (\<lambda>j. i + j) (filter (\<lambda>j. bit k j) [0..<16]))"

text \<open>
  \<^verbatim>\<open>*(const uint32_t*)&weights[p]\<close>: four bytes from offset \<open>p\<close>, little-endian
  (AVX-512 exists on x86 only).
\<close>

definition load_uint32 :: "(nat \<Rightarrow> uint8_t) \<Rightarrow> nat \<Rightarrow> uint32_t \<times> nat list" where
  "load_uint32 mem p =
     (ucast (mem p) OR push_bit 8 (ucast (mem (p + 1))) OR
      push_bit 16 (ucast (mem (p + 2))) OR push_bit 24 (ucast (mem (p + 3))),
      [p, p + 1, p + 2, p + 3])"

definition unpack_trits_avx512 :: "uint32_t \<Rightarrow> m512i" where
  "unpack_trits_avx512 packed =
     (let packed_vec = mm512_set1_epi32 packed;
          shift_amounts = [0, 2, 4, 6, 8, 10, 12, 14, 16, 18, 20, 22, 24, 26, 28, 30];
          shifted = mm512_srlv_epi32 packed_vec shift_amounts;
          mask_2bits = mm512_set1_epi32 0x3;
          trit_vec = mm512_and_si512 shifted mask_2bits
      in trit_vec)"

definition decode_trits_avx512 :: "m512i \<Rightarrow> m512i" where
  "decode_trits_avx512 encoded =
     (let ones = mm512_set1_epi32 1
      in mm512_sub_epi32 encoded ones)"

text \<open>
  The reduction, instruction by instruction: the upper half is added onto the lower
  half three times, then lane 1 onto lane 0 by the shuffle
  \<^verbatim>\<open>_MM_SHUFFLE(2, 3, 0, 1)\<close>, which swaps the lanes of each pair.
\<close>

definition mm512_castsi512_si256 :: "m512i \<Rightarrow> int32_t list" where
  "mm512_castsi512_si256 v = take 8 v"

definition mm512_extracti64x4_epi64_1 :: "m512i \<Rightarrow> int32_t list" where
  "mm512_extracti64x4_epi64_1 v = take 8 (drop 8 v)"

definition mm256_castsi256_si128 :: "int32_t list \<Rightarrow> int32_t list" where
  "mm256_castsi256_si128 v = take 4 v"

definition mm256_extracti128_si256_1 :: "int32_t list \<Rightarrow> int32_t list" where
  "mm256_extracti128_si256_1 v = take 4 (drop 4 v)"

definition mm_add_epi32 :: "int32_t list \<Rightarrow> int32_t list \<Rightarrow> int32_t list" where
  "mm_add_epi32 a b = map2 (+) a b"

fun mm_unpackhi_epi64 :: "int32_t list \<Rightarrow> int32_t list \<Rightarrow> int32_t list" where
  "mm_unpackhi_epi64 [a0, a1, a2, a3] [b0, b1, b2, b3] = [a2, a3, b2, b3]"
| "mm_unpackhi_epi64 a b = []"

fun mm_shuffle_epi32_2301 :: "int32_t list \<Rightarrow> int32_t list" where
  "mm_shuffle_epi32_2301 [a0, a1, a2, a3] = [a1, a0, a3, a2]"
| "mm_shuffle_epi32_2301 a = []"

fun mm_cvtsi128_si32 :: "int32_t list \<Rightarrow> int32_t" where
  "mm_cvtsi128_si32 (a0 # a) = a0"
| "mm_cvtsi128_si32 [] = 0"

definition horizontal_sum_avx512 :: "m512i \<Rightarrow> int32_t" where
  "horizontal_sum_avx512 vec =
     (let low = mm512_castsi512_si256 vec;
          high = mm512_extracti64x4_epi64_1 vec;
          sum256 = mm_add_epi32 low high;
          low128 = mm256_castsi256_si128 sum256;
          high128 = mm256_extracti128_si256_1 sum256;
          sum128 = mm_add_epi32 low128 high128;
          high64 = mm_unpackhi_epi64 sum128 sum128;
          sum64 = mm_add_epi32 sum128 high64;
          high32 = mm_shuffle_epi32_2301 sum64;
          sum32 = mm_add_epi32 sum64 high32
      in mm_cvtsi128_si32 sum32)"

text \<open>The state of a kernel run: the accumulator and the offsets loaded so far.\<close>

record kernel_state =
  accumulator :: m512i
  weight_reads :: "nat list"
  activation_reads :: "nat list"

definition kernel_init :: kernel_state where
  "kernel_init = \<lparr>accumulator = mm512_setzero_si512, weight_reads = [], activation_reads = []\<rparr>"

text \<open>\<^verbatim>\<open>for (size_t i = 0; i < n; i += 16)\<close> of \<^verbatim>\<open>ggml_bitnet_stfma_dense_avx512\<close>.\<close>

function dense_loop ::
    "(nat \<Rightarrow> uint8_t) \<Rightarrow> (nat \<Rightarrow> int32_t) \<Rightarrow> nat \<Rightarrow> nat \<Rightarrow> kernel_state \<Rightarrow> kernel_state" where
  "dense_loop weights activations n i s =
     (if i < n then
        (let (packed, wr) = load_uint32 weights (i div 4);
             trit_vec = unpack_trits_avx512 packed;
             weight_vec = decode_trits_avx512 trit_vec;
             (act_vec, ar) = mm512_loadu_si512 activations i;
             product = mm512_mullo_epi32 weight_vec act_vec;
             s' = \<lparr>accumulator = mm512_add_epi32 (accumulator s) product,
                   weight_reads = weight_reads s @ wr,
                   activation_reads = activation_reads s @ ar\<rparr>
         in dense_loop weights activations n (i + 16) s')
      else s)"
  by pat_completeness auto
termination
  by (relation "measure (\<lambda>(weights, activations, n, i, s). n - i)") auto

definition dense_avx512_run ::
    "(nat \<Rightarrow> uint8_t) \<Rightarrow> (nat \<Rightarrow> int32_t) \<Rightarrow> nat \<Rightarrow> kernel_state" where
  "dense_avx512_run weights activations n = dense_loop weights activations n 0 kernel_init"

definition ggml_bitnet_stfma_dense_avx512 ::
    "(nat \<Rightarrow> uint8_t) \<Rightarrow> (nat \<Rightarrow> int32_t) \<Rightarrow> nat \<Rightarrow> int32_t" where
  "ggml_bitnet_stfma_dense_avx512 weights activations n =
     horizontal_sum_avx512 (accumulator (dense_avx512_run weights activations n))"

text \<open>
  \<^verbatim>\<open>for (; i + 16 <= n; i += 16)\<close> of \<^verbatim>\<open>ggml_bitnet_stfma_dense_avx512_tail\<close>; the loop
  returns the index it stopped at together with the state.
\<close>

function dense_tail_loop ::
    "(nat \<Rightarrow> uint8_t) \<Rightarrow> (nat \<Rightarrow> int32_t) \<Rightarrow> nat \<Rightarrow> nat \<Rightarrow> kernel_state
       \<Rightarrow> nat \<times> kernel_state" where
  "dense_tail_loop weights activations n i s =
     (if i + 16 \<le> n then
        (let (packed, wr) = load_uint32 weights (i div 4);
             trit_vec = unpack_trits_avx512 packed;
             weight_vec = decode_trits_avx512 trit_vec;
             (act_vec, ar) = mm512_loadu_si512 activations i;
             product = mm512_mullo_epi32 weight_vec act_vec;
             s' = \<lparr>accumulator = mm512_add_epi32 (accumulator s) product,
                   weight_reads = weight_reads s @ wr,
                   activation_reads = activation_reads s @ ar\<rparr>
         in dense_tail_loop weights activations n (i + 16) s')
      else (i, s))"
  by pat_completeness auto
termination
  by (relation "measure (\<lambda>(weights, activations, n, i, s). Suc n - (i + 16))") auto

text \<open>
  The masked tail. \<^verbatim>\<open>(1 << remaining) - 1\<close> is computed in \<^verbatim>\<open>int\<close> (\<open>remaining\<close> is
  between 1 and 15 here) and converted to the 16-bit mask type. The weight word is
  loaded by the same unmasked 32-bit load as in the loop; only the activation load
  and the multiply are masked.
\<close>

definition dense_tail_rest ::
    "(nat \<Rightarrow> uint8_t) \<Rightarrow> (nat \<Rightarrow> int32_t) \<Rightarrow> nat \<Rightarrow> nat \<Rightarrow> kernel_state \<Rightarrow> kernel_state" where
  "dense_tail_rest weights activations n i s =
     (if i < n then
        (let remaining = n - i;
             mask = (ucast (push_bit remaining (1 :: 32 word) - 1) :: mmask16);
             (packed, wr) = load_uint32 weights (i div 4);
             trit_vec = unpack_trits_avx512 packed;
             weight_vec = decode_trits_avx512 trit_vec;
             (act_vec, ar) = mm512_maskz_loadu_epi32 mask activations i;
             product = mm512_maskz_mullo_epi32 mask weight_vec act_vec
         in \<lparr>accumulator = mm512_add_epi32 (accumulator s) product,
             weight_reads = weight_reads s @ wr,
             activation_reads = activation_reads s @ ar\<rparr>)
      else s)"

definition dense_avx512_tail_run ::
    "(nat \<Rightarrow> uint8_t) \<Rightarrow> (nat \<Rightarrow> int32_t) \<Rightarrow> nat \<Rightarrow> kernel_state" where
  "dense_avx512_tail_run weights activations n =
     (let (i, s) = dense_tail_loop weights activations n 0 kernel_init
      in dense_tail_rest weights activations n i s)"

definition ggml_bitnet_stfma_dense_avx512_tail ::
    "(nat \<Rightarrow> uint8_t) \<Rightarrow> (nat \<Rightarrow> int32_t) \<Rightarrow> nat \<Rightarrow> int32_t" where
  "ggml_bitnet_stfma_dense_avx512_tail weights activations n =
     horizontal_sum_avx512 (accumulator (dense_avx512_tail_run weights activations n))"

subsection \<open>Scalar reference (\<^verbatim>\<open>ggml-bitnet-stfma-inference.cpp\<close>, fallback path)\<close>

text \<open>
  The non-vectorized loop of the inference file: byte \<open>i / 4\<close>, field \<open>i % 4\<close>,
  weight \<open>(int32_t)trit - 1\<close>, accumulated in \<^verbatim>\<open>int32_t\<close>. Signed overflow is
  undefined in C; the model wraps, as the compiled code and the vector instructions
  do.
\<close>

definition scalar_weight :: "(nat \<Rightarrow> uint8_t) \<Rightarrow> nat \<Rightarrow> int32_t" where
  "scalar_weight weights i =
     (let byte_idx = i div 4;
          trit_idx = i mod 4;
          byte = weights byte_idx;
          trit = drop_bit (trit_idx * 2) byte AND 0x3
      in ucast trit - 1)"

definition scalar_dot :: "(nat \<Rightarrow> uint8_t) \<Rightarrow> (nat \<Rightarrow> int32_t) \<Rightarrow> nat \<Rightarrow> int32_t" where
  "scalar_dot weights activations n =
     fold (\<lambda>i result. result + scalar_weight weights i * activations i) [0..<n] 0"

declare dense_loop.simps [simp del] dense_tail_loop.simps [simp del]

text \<open>
  Vocabulary for the proofs: the term that element \<open>i\<close> contributes to the dot
  product, and the effect of one full 16-lane chunk on the kernel state (the body
  shared by the loops of both kernels).
\<close>

definition lane_term :: "(nat \<Rightarrow> uint8_t) \<Rightarrow> (nat \<Rightarrow> int32_t) \<Rightarrow> nat \<Rightarrow> int32_t" where
  "lane_term weights activations i = scalar_weight weights i * activations i"

definition chunk_step ::
    "(nat \<Rightarrow> uint8_t) \<Rightarrow> (nat \<Rightarrow> int32_t) \<Rightarrow> nat \<Rightarrow> kernel_state \<Rightarrow> kernel_state" where
  "chunk_step weights activations i s =
     \<lparr>accumulator = mm512_add_epi32 (accumulator s)
        (mm512_mullo_epi32
           (decode_trits_avx512 (unpack_trits_avx512 (fst (load_uint32 weights (i div 4)))))
           (fst (mm512_loadu_si512 activations i))),
      weight_reads = weight_reads s @ snd (load_uint32 weights (i div 4)),
      activation_reads = activation_reads s @ snd (mm512_loadu_si512 activations i)\<rparr>"

text \<open>
  The specification's reference formula read over the integers, with no wrap-around:
  the sum over \<open>i < n\<close> of \<open>(field\<^sub>i - 1) * activations[i]\<close>.
\<close>

definition reference_sum :: "(nat \<Rightarrow> uint8_t) \<Rightarrow> (nat \<Rightarrow> int32_t) \<Rightarrow> nat \<Rightarrow> int" where
  "reference_sum weights activations n =
     sum_list (map (\<lambda>i. (uint (field (weights (i div 4)) (i mod 4)) - 1) * sint (activations i))
       [0..<n])"

subsection \<open>Weight cache (\<^verbatim>\<open>ggml-bitnet-stfma-cache.c\<close>)\<close>

text \<open>
  The heap is explicit. A pointer is \<open>None\<close> (\<^verbatim>\<open>NULL\<close>) or \<open>Some a\<close> for an address
  \<open>a\<close>. \<^verbatim>\<open>malloc\<close> never returns memory that overlaps a live block, so the blocks
  holding a \<^verbatim>\<open>struct ggml_bitnet_stfma_cache_entry\<close> and the blocks holding bytes are
  kept in two maps. Dereferencing or freeing a pointer that is not a live block is
  undefined behaviour in C; the model returns the fault \<open>Invalid_pointer\<close> there, and
  the fault \<open>Signed_overflow\<close> where \<^verbatim>\<open>int\<close> arithmetic leaves the range of \<^verbatim>\<open>int\<close>.
  \<^verbatim>\<open>size_t\<close> is 64 bits wide and wraps.
\<close>

type_synonym addr = nat

datatype fault = Invalid_pointer | Signed_overflow

record cache_entry =
  stfma_weights :: "addr option"
  size_bytes :: size_t
  "next" :: "addr option"

text \<open>
  The process state the cache works on: the two heaps and the three fields of the
  global \<^verbatim>\<open>g_cache\<close>.
\<close>

record cache_state =
  entries :: "addr \<rightharpoonup> cache_entry"
  buffers :: "addr \<rightharpoonup> uint8_t list"
  head :: "addr option"
  num_entries :: size_t
  total_bytes :: size_t

text \<open>The state at program start: \<^verbatim>\<open>g_cache = {NULL, 0, 0}\<close> and nothing allocated.\<close>

definition g_cache_initial :: cache_state where
  "g_cache_initial =
     \<lparr>entries = Map.empty, buffers = Map.empty, head = None, num_entries = 0, total_bytes = 0\<rparr>"

definition ggml_bitnet_stfma_cache_init :: "cache_state \<Rightarrow> cache_state" where
  "ggml_bitnet_stfma_cache_init st = st\<lparr>head := None, num_entries := 0, total_bytes := 0\<rparr>"

text \<open>
  A block fresh from \<^verbatim>\<open>malloc\<close> has indeterminate contents. The code writes every
  field of the entry and every byte of the buffer before anything reads them, so the
  placeholders below are never observed.
\<close>

definition uninit_entry :: cache_entry where
  "uninit_entry = \<lparr>stfma_weights = None, size_bytes = 0, next = None\<rparr>"

definition uninit_bytes :: "nat \<Rightarrow> uint8_t list" where
  "uninit_bytes k = replicate k 0"

text \<open>
  The conversion loop \<^verbatim>\<open>for (size_t i = 0; i < size_bytes; i++)\<close>; it returns the
  destination buffer and the source offsets it has read.
\<close>

definition convert_loop ::
    "(nat \<Rightarrow> uint8_t) \<Rightarrow> nat \<Rightarrow> uint8_t list \<Rightarrow> uint8_t list \<times> nat list" where
  "convert_loop bitnet_weights size_bytes' stfma =
     fold (\<lambda>i (buf, reads).
             (buf[i := convert_bitnet_to_stfma_byte (bitnet_weights i)], reads @ [i]))
       [0..<size_bytes'] (stfma, [])"

text \<open>
  \<^verbatim>\<open>ggml_bitnet_stfma_cache_weights\<close>. The results of its two \<^verbatim>\<open>malloc\<close> calls are
  arguments: \<open>None\<close> when the allocation fails, \<open>Some a\<close> for the block it returns.
  The run returns the handle, the new state and the offsets of \<^verbatim>\<open>bitnet_weights\<close>
  that were read; the function itself returns the handle and the new state.
\<close>

definition cache_weights_run ::
    "cache_state \<Rightarrow> (nat \<Rightarrow> uint8_t) option \<Rightarrow> size_t \<Rightarrow> addr option \<Rightarrow> addr option
       \<Rightarrow> addr option \<times> cache_state \<times> nat list" where
  "cache_weights_run st bitnet_weights n malloc_entry malloc_buffer =
     (case bitnet_weights of
        None \<Rightarrow> (None, st, [])
      | Some raw \<Rightarrow>
          if n = 0 then (None, st, [])
          else
            (case malloc_entry of
               None \<Rightarrow> (None, st, [])
             | Some entry \<Rightarrow>
                 let st1 = st\<lparr>entries := (entries st)(entry \<mapsto> uninit_entry)\<rparr>;
                     size_bytes' = (n + 3) div 4
                 in (case malloc_buffer of
                       None \<Rightarrow> (None, st1\<lparr>entries := (entries st1)(entry := None)\<rparr>, [])
                     | Some buf \<Rightarrow>
                         let (converted, reads) =
                               convert_loop raw (unat size_bytes')
                                 (uninit_bytes (unat size_bytes'));
                             e = \<lparr>stfma_weights = Some buf, size_bytes = size_bytes',
                                  next = head st1\<rparr>
                         in (Some entry,
                             st1\<lparr>entries := (entries st1)(entry \<mapsto> e),
                                 buffers := (buffers st1)(buf \<mapsto> converted),
                                 head := Some entry,
                                 num_entries := num_entries st1 + 1,
                                 total_bytes := total_bytes st1 + size_bytes'\<rparr>,
                             reads))))"

definition ggml_bitnet_stfma_cache_weights ::
    "cache_state \<Rightarrow> (nat \<Rightarrow> uint8_t) option \<Rightarrow> size_t \<Rightarrow> addr option \<Rightarrow> addr option
       \<Rightarrow> addr option \<times> cache_state" where
  "ggml_bitnet_stfma_cache_weights st bitnet_weights n malloc_entry malloc_buffer =
     (let (handle, st', reads) =
            cache_weights_run st bitnet_weights n malloc_entry malloc_buffer
      in (handle, st'))"

definition ggml_bitnet_stfma_get_cached_weights ::
    "cache_state \<Rightarrow> addr option \<Rightarrow> fault + addr option" where
  "ggml_bitnet_stfma_get_cached_weights st handle =
     (case handle of
        None \<Rightarrow> Inr None
      | Some h \<Rightarrow>
          (case entries st h of
             None \<Rightarrow> Inl Invalid_pointer
           | Some e \<Rightarrow> Inr (stfma_weights e)))"

text \<open>
  The pointer-to-pointer \<^verbatim>\<open>curr\<close> of the removal loop points either at
  \<^verbatim>\<open>g_cache.head\<close> or at the \<^verbatim>\<open>next\<close> field of an entry.
\<close>

datatype link = Head_link | Next_link addr

definition load_link :: "cache_state \<Rightarrow> link \<Rightarrow> fault + addr option" where
  "load_link st cur =
     (case cur of
        Head_link \<Rightarrow> Inr (head st)
      | Next_link a \<Rightarrow>
          (case entries st a of
             None \<Rightarrow> Inl Invalid_pointer
           | Some e \<Rightarrow> Inr (next e)))"

definition store_link :: "cache_state \<Rightarrow> link \<Rightarrow> addr option \<Rightarrow> fault + cache_state" where
  "store_link st cur v =
     (case cur of
        Head_link \<Rightarrow> Inr (st\<lparr>head := v\<rparr>)
      | Next_link a \<Rightarrow>
          (case entries st a of
             None \<Rightarrow> Inl Invalid_pointer
           | Some e \<Rightarrow> Inr (st\<lparr>entries := (entries st)(a \<mapsto> e\<lparr>next := v\<rparr>)\<rparr>)))"

text \<open>
  \<^verbatim>\<open>while (*curr) { if (*curr == handle) { ...; break; } curr = &(*curr)->next; }\<close>.
  The loop need not return on a cyclic list: \<open>None\<close> is the run that never returns.
\<close>

partial_function (option) unlink_loop ::
    "cache_state \<Rightarrow> addr \<Rightarrow> link \<Rightarrow> (fault + cache_state) option" where
  "unlink_loop st handle cur =
     (case load_link st cur of
        Inl f \<Rightarrow> Some (Inl f)
      | Inr None \<Rightarrow> Some (Inr st)
      | Inr (Some p) \<Rightarrow>
          if p = handle then
            (case entries st handle of
               None \<Rightarrow> Some (Inl Invalid_pointer)
             | Some e \<Rightarrow>
                 (case store_link st cur (next e) of
                    Inl f \<Rightarrow> Some (Inl f)
                  | Inr st1 \<Rightarrow>
                      Some (Inr (st1\<lparr>num_entries := num_entries st1 - 1,
                                     total_bytes := total_bytes st1 - size_bytes e\<rparr>))))
          else unlink_loop st handle (Next_link p))"

text \<open>\<^verbatim>\<open>free\<close> on a byte buffer (a null pointer is allowed) and on an entry.\<close>

definition free_buffer :: "cache_state \<Rightarrow> addr option \<Rightarrow> fault + cache_state" where
  "free_buffer st p =
     (case p of
        None \<Rightarrow> Inr st
      | Some b \<Rightarrow>
          (case buffers st b of
             None \<Rightarrow> Inl Invalid_pointer
           | Some bytes \<Rightarrow> Inr (st\<lparr>buffers := (buffers st)(b := None)\<rparr>)))"

definition free_entry :: "cache_state \<Rightarrow> addr \<Rightarrow> fault + cache_state" where
  "free_entry st h =
     (case entries st h of
        None \<Rightarrow> Inl Invalid_pointer
      | Some e \<Rightarrow> Inr (st\<lparr>entries := (entries st)(h := None)\<rparr>))"

definition ggml_bitnet_stfma_free_cached_weights ::
    "cache_state \<Rightarrow> addr option \<Rightarrow> (fault + cache_state) option" where
  "ggml_bitnet_stfma_free_cached_weights st handle =
     (case handle of
        None \<Rightarrow> Some (Inr st)
      | Some h \<Rightarrow>
          (case unlink_loop st h Head_link of
             None \<Rightarrow> None
           | Some (Inl f) \<Rightarrow> Some (Inl f)
           | Some (Inr st1) \<Rightarrow>
               (case entries st1 h of
                  None \<Rightarrow> Some (Inl Invalid_pointer)
                | Some e \<Rightarrow>
                    (case free_buffer st1 (stfma_weights e) of
                       Inl f \<Rightarrow> Some (Inl f)
                     | Inr st2 \<Rightarrow> Some (free_entry st2 h)))))"

text \<open>\<^verbatim>\<open>while (curr) { next = curr->next; free(curr->stfma_weights); free(curr); curr = next; }\<close>\<close>

partial_function (option) shutdown_loop ::
    "cache_state \<Rightarrow> addr option \<Rightarrow> (fault + cache_state) option" where
  "shutdown_loop st cur =
     (case cur of
        None \<Rightarrow> Some (Inr st)
      | Some c \<Rightarrow>
          (case entries st c of
             None \<Rightarrow> Some (Inl Invalid_pointer)
           | Some e \<Rightarrow>
               (case free_buffer st (stfma_weights e) of
                  Inl f \<Rightarrow> Some (Inl f)
                | Inr st1 \<Rightarrow>
                    (case free_entry st1 c of
                       Inl f \<Rightarrow> Some (Inl f)
                     | Inr st2 \<Rightarrow> shutdown_loop st2 (next e)))))"

definition ggml_bitnet_stfma_cache_shutdown ::
    "cache_state \<Rightarrow> (fault + cache_state) option" where
  "ggml_bitnet_stfma_cache_shutdown st =
     (case shutdown_loop st (head st) of
        None \<Rightarrow> None
      | Some (Inl f) \<Rightarrow> Some (Inl f)
      | Some (Inr st1) \<Rightarrow>
          Some (Inr (st1\<lparr>head := None, num_entries := 0, total_bytes := 0\<rparr>)))"

text \<open>
  \<^verbatim>\<open>ggml_bitnet_stfma_cache_stats\<close> with both output pointers given: the two values
  it stores.
\<close>

definition ggml_bitnet_stfma_cache_stats :: "cache_state \<Rightarrow> size_t \<times> size_t" where
  "ggml_bitnet_stfma_cache_stats st = (num_entries st, total_bytes st)"

text \<open>
  The registry as a list: \<open>registry h p as\<close> holds when following \<^verbatim>\<open>next\<close> from the
  pointer \<open>p\<close> visits exactly the entries at the addresses \<open>as\<close>, in this order, and
  ends at \<^verbatim>\<open>NULL\<close>. These are the registered entries: the ones linked from
  \<^verbatim>\<open>g_cache.head\<close>. The live entries are the allocated ones, \<open>dom (entries st)\<close>: an
  entry lives from its creation until it is freed. \<^verbatim>\<open>ggml_bitnet_stfma_cache_init\<close>
  unlinks every registered entry and frees none, so after it an entry can be live and
  not registered.
\<close>

primrec registry :: "(addr \<rightharpoonup> cache_entry) \<Rightarrow> addr option \<Rightarrow> addr list \<Rightarrow> bool" where
  "registry h p [] \<longleftrightarrow> p = None"
| "registry h p (a # as) \<longleftrightarrow>
     p = Some a \<and> (case h a of None \<Rightarrow> False | Some e \<Rightarrow> registry h (next e) as)"

definition entry_size :: "(addr \<rightharpoonup> cache_entry) \<Rightarrow> addr \<Rightarrow> size_t" where
  "entry_size h a = (case h a of None \<Rightarrow> 0 | Some e \<Rightarrow> size_bytes e)"

text \<open>
  The bytes of the live blocks: \<^verbatim>\<open>sizeof(struct ggml_bitnet_stfma_cache_entry)\<close> is 24
  (two pointers and a \<^verbatim>\<open>size_t\<close>) for each entry, and its length for each buffer.
\<close>

definition sizeof_cache_entry :: nat where
  "sizeof_cache_entry = 24"

definition buffer_length :: "cache_state \<Rightarrow> addr \<Rightarrow> nat" where
  "buffer_length st b = (case buffers st b of None \<Rightarrow> 0 | Some bytes \<Rightarrow> length bytes)"

definition heap_bytes :: "cache_state \<Rightarrow> nat" where
  "heap_bytes st =
     sizeof_cache_entry * card (dom (entries st)) + sum (buffer_length st) (dom (buffers st))"

text \<open>
  The operations of the cache interface as steps. \<open>step st st'\<close> holds when one call
  takes the state \<open>st\<close> to \<open>st'\<close> and returns without a fault. Two facts about
  \<^verbatim>\<open>malloc\<close> are premises: the blocks it hands out are not live at the call, and the
  live blocks, being disjoint, fit into the address space of \<open>2\<^sup>6\<^sup>4\<close> bytes.
  \<^verbatim>\<open>ggml_bitnet_stfma_cache_init\<close> is a step only while no entry is live (its header
  asks for one call, during model loading); what it does to live entries is stated
  apart. \<open>reachable\<close> are the states any sequence of steps leads to from program
  start.
\<close>

definition malloc_fresh :: "cache_state \<Rightarrow> addr option \<Rightarrow> addr option \<Rightarrow> bool" where
  "malloc_fresh st malloc_entry malloc_buffer \<longleftrightarrow>
     (case malloc_entry of None \<Rightarrow> True | Some e \<Rightarrow> entries st e = None) \<and>
     (case malloc_buffer of None \<Rightarrow> True | Some b \<Rightarrow> buffers st b = None)"

inductive step :: "cache_state \<Rightarrow> cache_state \<Rightarrow> bool" where
  step_init: "entries st = Map.empty \<Longrightarrow> step st (ggml_bitnet_stfma_cache_init st)"
| step_cache_weights:
    "malloc_fresh st malloc_entry malloc_buffer \<Longrightarrow>
     heap_bytes (snd (ggml_bitnet_stfma_cache_weights st bitnet_weights n
                        malloc_entry malloc_buffer)) < 2 ^ 64 \<Longrightarrow>
     step st (snd (ggml_bitnet_stfma_cache_weights st bitnet_weights n malloc_entry malloc_buffer))"
| step_free_cached_weights:
    "ggml_bitnet_stfma_free_cached_weights st handle = Some (Inr st') \<Longrightarrow> step st st'"
| step_shutdown:
    "ggml_bitnet_stfma_cache_shutdown st = Some (Inr st') \<Longrightarrow> step st st'"

inductive reachable :: "cache_state \<Rightarrow> bool" where
  reachable_initial: "reachable g_cache_initial"
| reachable_step: "reachable st \<Longrightarrow> step st st' \<Longrightarrow> reachable st'"

subsection \<open>Inference entry points (\<^verbatim>\<open>ggml-bitnet-stfma-inference.cpp\<close>, AVX-512 build)\<close>

text \<open>
  The entry points write a \<^verbatim>\<open>float\<close> through the pointer \<^verbatim>\<open>s\<close>. No floating-point
  arithmetic happens in this code: every value written is the conversion
  \<^verbatim>\<open>(float)result\<close> of a 32-bit integer, or the literal \<^verbatim>\<open>0.0f\<close>, which is the
  conversion of 0. A written float is represented by the integer it converts.
\<close>

datatype float32 = Float32_of_int32 int32_t

definition float32_zero :: float32 where
  "float32_zero = Float32_of_int32 0"

text \<open>
  The thread-local scratch buffers \<^verbatim>\<open>tl_buffers\<close> and the state the entry points
  work on: the cache and the scratch buffers of the calling thread.
\<close>

record scratch_buffers =
  int32_buffer :: "int32_t list"
  encoding_buffer :: "uint8_t list"

record inference_state =
  cache :: cache_state
  tl_buffers :: scratch_buffers

text \<open>
  A buffer seen as memory by the kernel: its elements, followed by whatever lies
  behind it.
\<close>

definition buffer_memory :: "'a list \<Rightarrow> (nat \<Rightarrow> 'a) \<Rightarrow> nat \<Rightarrow> 'a" where
  "buffer_memory xs beyond i = (if i < length xs then xs ! i else beyond (i - length xs))"

text \<open>The conversion of the \<^verbatim>\<open>int\<close> argument \<open>n\<close> to \<^verbatim>\<open>size_t\<close>.\<close>

definition size_t_of_int :: "int \<Rightarrow> nat" where
  "size_t_of_int n = nat (n mod 2 ^ 64)"

text \<open>
  Modelled from the spec: \<^verbatim>\<open>stfma_ensure_buffer_size\<close> is declared in
  \<^verbatim>\<open>ggml-bitnet-stfma.h\<close>, which is not among the sources. The specification says
  that the scratch capacity is made at least \<open>n\<close> before writing, grows when it is
  insufficient and never shrinks. Both buffers are grown to \<open>n\<close> elements, exact fit.
\<close>

definition grow_to :: "nat \<Rightarrow> 'a \<Rightarrow> 'a list \<Rightarrow> 'a list" where
  "grow_to k x xs = xs @ replicate (k - length xs) x"

definition stfma_ensure_buffer_size :: "scratch_buffers \<Rightarrow> int \<Rightarrow> scratch_buffers" where
  "stfma_ensure_buffer_size b n =
     \<lparr>int32_buffer = grow_to (nat n) 0 (int32_buffer b),
      encoding_buffer = grow_to (nat n) 0 (encoding_buffer b)\<rparr>"

text \<open>
  Modelled from the spec: \<^verbatim>\<open>convert_i8_to_i32_avx2\<close> is not among the sources. The
  specification says that each 8-bit activation is widened to 32 bits with its value
  preserved; the first \<open>n\<close> elements of the destination are written.
\<close>

definition convert_i8_to_i32_avx2 ::
    "(nat \<Rightarrow> int8_t) \<Rightarrow> int32_t list \<Rightarrow> int \<Rightarrow> int32_t list" where
  "convert_i8_to_i32_avx2 src dst n =
     map (\<lambda>i. scast (src i)) [0..<nat n] @ drop (nat n) dst"

text \<open>
  Modelled from the spec: \<^verbatim>\<open>convert_bitnet_to_stfma_array\<close> is not among the sources.
  The specification says that it applies the byte encoder to each of the first
  \<open>size_bytes\<close> source bytes. A null source or a destination that is too short is a
  fault when at least one byte is to be converted.
\<close>

definition convert_bitnet_to_stfma_array ::
    "(nat \<Rightarrow> uint8_t) option \<Rightarrow> uint8_t list \<Rightarrow> nat \<Rightarrow> fault + uint8_t list" where
  "convert_bitnet_to_stfma_array src dst size_bytes' =
     (if size_bytes' = 0 then Inr dst
      else
        (case src of
           None \<Rightarrow> Inl Invalid_pointer
         | Some raw \<Rightarrow>
             if length dst < size_bytes' then Inl Invalid_pointer
             else Inr (map (\<lambda>i. convert_bitnet_to_stfma_byte (raw i)) [0..<size_bytes'] @
                       drop size_bytes' dst)))"

text \<open>
  \<^verbatim>\<open>ggml_vec_dot_i2_i8_s_stfma_cached\<close>. The result is the float written to \<^verbatim>\<open>*s\<close>
  and the state after the call. \<open>beyond\<close> is the memory behind the weight buffer (the
  kernel may load from it). A weight pointer that is not a live buffer is a fault at
  the kernel call. So is a negative \<open>n\<close>: converted to \<^verbatim>\<open>size_t\<close> it exceeds every
  buffer, and the kernel reads out of bounds without end.
\<close>

definition ggml_vec_dot_i2_i8_s_stfma_cached ::
    "inference_state \<Rightarrow> (nat \<Rightarrow> uint8_t) \<Rightarrow> int \<Rightarrow> addr option \<Rightarrow> (nat \<Rightarrow> int8_t)
       \<Rightarrow> fault + float32 \<times> inference_state" where
  "ggml_vec_dot_i2_i8_s_stfma_cached st beyond n vx_handle vy =
     (case ggml_bitnet_stfma_get_cached_weights (cache st) vx_handle of
        Inl f \<Rightarrow> Inl f
      | Inr None \<Rightarrow> Inr (float32_zero, st)
      | Inr (Some w) \<Rightarrow>
          (case buffers (cache st) w of
             None \<Rightarrow> Inl Invalid_pointer
           | Some stfma_weights' \<Rightarrow>
               if n < 0 then Inl Invalid_pointer
               else
                 let b1 = stfma_ensure_buffer_size (tl_buffers st) n;
                     b2 = b1\<lparr>int32_buffer := convert_i8_to_i32_avx2 vy (int32_buffer b1) n\<rparr>;
                     result = ggml_bitnet_stfma_dense_avx512_tail
                                (buffer_memory stfma_weights' beyond)
                                (buffer_memory (int32_buffer b2) (\<lambda>i. 0))
                                (size_t_of_int n)
                 in Inr (Float32_of_int32 result, st\<lparr>tl_buffers := b2\<rparr>)))"

text \<open>
  \<^verbatim>\<open>ggml_vec_dot_i2_i8_s_stfma_hybrid\<close>. The untyped pointer \<^verbatim>\<open>vx\<close> is an address;
  with \<^verbatim>\<open>use_cache\<close> it is used as a handle, otherwise as a pointer to raw bytes,
  which \<open>bytes_at\<close> gives for every address. As in the cached path, a negative
  \<open>n\<close> is a fault. \<^verbatim>\<open>(n + 3) / 4\<close> is computed in \<^verbatim>\<open>int\<close>, a 32-bit type: when
  \<^verbatim>\<open>n + 3\<close> exceeds \<^verbatim>\<open>INT_MAX\<close> the addition overflows, which is a fault; otherwise
  the quotient of the non-negative sum is the rounded-down one.
\<close>

definition ggml_vec_dot_i2_i8_s_stfma_hybrid ::
    "inference_state \<Rightarrow> (addr \<Rightarrow> nat \<Rightarrow> uint8_t) \<Rightarrow> (nat \<Rightarrow> uint8_t) \<Rightarrow> int \<Rightarrow> addr option
       \<Rightarrow> (nat \<Rightarrow> int8_t) \<Rightarrow> bool \<Rightarrow> fault + float32 \<times> inference_state" where
  "ggml_vec_dot_i2_i8_s_stfma_hybrid st bytes_at beyond n vx vy use_cache =
     (if use_cache then
        (let handle = vx
         in ggml_vec_dot_i2_i8_s_stfma_cached st beyond n handle vy)
      else if n < 0 then Inl Invalid_pointer
      else if 2147483647 < n + 3 then Inl Signed_overflow
      else
        (let bitnet_weights = map_option bytes_at vx;
             b1 = stfma_ensure_buffer_size (tl_buffers st) n;
             num_bytes = size_t_of_int ((n + 3) div 4)
         in (case convert_bitnet_to_stfma_array bitnet_weights (encoding_buffer b1) num_bytes of
               Inl f \<Rightarrow> Inl f
             | Inr enc \<Rightarrow>
                 let b2 = b1\<lparr>encoding_buffer := enc\<rparr>;
                     b3 = b2\<lparr>int32_buffer := convert_i8_to_i32_avx2 vy (int32_buffer b2) n\<rparr>;
                     result = ggml_bitnet_stfma_dense_avx512_tail
                                (buffer_memory (encoding_buffer b3) beyond)
                                (buffer_memory (int32_buffer b3) (\<lambda>i. 0))
                                (size_t_of_int n)
                 in Inr (Float32_of_int32 result, st\<lparr>tl_buffers := b3\<rparr>))))"

text \<open>
  Vocabulary for the proofs about the cache. \<open>cache_inv st ps\<close>: the registry of
  \<open>st\<close> is the list \<open>ps\<close> and the two counters agree with it. \<open>heap_inv\<close>: every
  allocated entry owns an allocated buffer, and no two entries share one.
  \<open>live_inv st ps\<close>: the live entries are the registered ones, each records the
  length of its buffer, and the live blocks fit into the address space.
  \<open>same_payload\<close>: two entry heaps differ in \<^verbatim>\<open>next\<close> fields only. \<open>unlink_post\<close>:
  what the removal loop has done when it found the handle.
\<close>

definition cache_inv :: "cache_state \<Rightarrow> addr list \<Rightarrow> bool" where
  "cache_inv st ps \<longleftrightarrow>
     registry (entries st) (head st) ps \<and> distinct ps \<and>
     num_entries st = of_nat (length ps) \<and>
     total_bytes st = sum_list (map (entry_size (entries st)) ps)"

definition heap_inv :: "cache_state \<Rightarrow> bool" where
  "heap_inv st \<longleftrightarrow>
     (\<forall>a e. entries st a = Some e \<longrightarrow>
        (\<exists>b. stfma_weights e = Some b \<and> buffers st b \<noteq> None)) \<and>
     (\<forall>a a' e e'. entries st a = Some e \<and> entries st a' = Some e' \<and>
        stfma_weights e = stfma_weights e' \<longrightarrow> a = a')"

definition live_inv :: "cache_state \<Rightarrow> addr list \<Rightarrow> bool" where
  "live_inv st ps \<longleftrightarrow>
     dom (entries st) = set ps \<and> finite (dom (buffers st)) \<and> heap_bytes st < 2 ^ 64 \<and>
     (\<forall>a e b. entries st a = Some e \<and> stfma_weights e = Some b \<longrightarrow>
        buffer_length st b = unat (size_bytes e))"

definition same_payload :: "(addr \<rightharpoonup> cache_entry) \<Rightarrow> (addr \<rightharpoonup> cache_entry) \<Rightarrow> bool" where
  "same_payload h h' \<longleftrightarrow>
     (\<forall>a. (h' a = None \<longleftrightarrow> h a = None) \<and>
          map_option size_bytes (h' a) = map_option size_bytes (h a) \<and>
          map_option stfma_weights (h' a) = map_option stfma_weights (h a))"

definition unlink_post :: "cache_state \<Rightarrow> link \<Rightarrow> addr \<Rightarrow> addr list \<Rightarrow> cache_state \<Rightarrow> bool" where
  "unlink_post st cur handle as st' \<longleftrightarrow>
     (\<exists>p'. load_link st' cur = Inr p' \<and> registry (entries st') p' (remove1 handle as)) \<and>
     buffers st' = buffers st \<and>
     num_entries st' = num_entries st - 1 \<and>
     total_bytes st' = total_bytes st - entry_size (entries st) handle \<and>
     same_payload (entries st) (entries st') \<and>
     (\<forall>x. x \<notin> set as \<and> cur \<noteq> Next_link x \<longrightarrow> entries st' x = entries st x) \<and>
     (cur \<noteq> Head_link \<longrightarrow> head st' = head st)"

text \<open>
  The scenarios of the specification, run from program start: three tensors of 16, 20
  and 4 elements are cached (every allocation succeeds), then the second handle is
  freed.
\<close>

definition tensor_a :: "nat \<Rightarrow> uint8_t" where
  "tensor_a i = 0x24"

definition tensor_b :: "nat \<Rightarrow> uint8_t" where
  "tensor_b i = 0x12"

definition tensor_c :: "nat \<Rightarrow> uint8_t" where
  "tensor_c i = 0x00"

definition scenario_A :: cache_state where
  "scenario_A =
     (let (h1, st1) = ggml_bitnet_stfma_cache_weights g_cache_initial (Some tensor_a) 16
                        (Some 10) (Some 11);
          (h2, st2) = ggml_bitnet_stfma_cache_weights st1 (Some tensor_b) 20 (Some 20) (Some 21);
          (h3, st3) = ggml_bitnet_stfma_cache_weights st2 (Some tensor_c) 4 (Some 30) (Some 31)
      in st3)"

definition scenario_B :: "(fault + cache_state) option" where
  "scenario_B = ggml_bitnet_stfma_free_cached_weights scenario_A (Some 20)"

subsection \<open>Bit-level facts about the encoder\<close>

lemma nat_less_8_cases:
  "n < 8 \<Longrightarrow> n = 0 \<or> n = 1 \<or> n = 2 \<or> n = 3 \<or> n = 4 \<or> n = 5 \<or> n = 6 \<or> n = (7::nat)"
  by arith

lemma bit_0x55: "bit (0x55 :: uint8_t) n \<longleftrightarrow> n < 8 \<and> even n"
proof (cases "n < 8")
  case True
  from nat_less_8_cases [OF this] show ?thesis
    by (elim disjE) simp_all
next
  case False
  then show ?thesis using bit_imp_le_length [of _ n] by fastforce
qed

lemma bit_0xAA: "bit (0xAA :: uint8_t) n \<longleftrightarrow> n < 8 \<and> odd n"
proof (cases "n < 8")
  case True
  from nat_less_8_cases [OF this] show ?thesis
    by (elim disjE) simp_all
next
  case False
  then show ?thesis using bit_imp_le_length [of _ n] by fastforce
qed

lemma bit_0x03: "bit (0x3 :: uint8_t) n \<longleftrightarrow> n < 2"
proof (cases "n < 8")
  case True
  from nat_less_8_cases [OF this] show ?thesis
    by (elim disjE) simp_all
next
  case False
  then show ?thesis using bit_imp_le_length [of _ n] by fastforce
qed

text \<open>
  Output bit \<open>n\<close> depends on input bits of the same field only: an even position
  (the low bit of a field) receives the field's high bit, an odd position (the high
  bit) receives the equality of the field's two bits.
\<close>

lemma bit_convert:
  "bit (convert_bitnet_to_stfma_byte b) n \<longleftrightarrow>
     n < 8 \<and> (if even n then bit b (Suc n) else (bit b n \<longleftrightarrow> bit b (n - 1)))"
proof (cases "n < 8")
  case True
  then show ?thesis
    unfolding convert_bitnet_to_stfma_byte_def Let_def
    apply (simp only: bit_or_iff bit_and_iff bit_xor_iff bit_not_iff bit_drop_bit_eq
        o_apply bit_push_bit_iff bit_0x55 bit_0xAA possible_bit_word)
    apply (cases "even n")
     apply (auto dest: bit_imp_le_length elim!: oddE)
    done
next
  case False
  then show ?thesis using bit_imp_le_length [of _ n] by fastforce
qed

lemma bit_field: "bit (field b k) n \<longleftrightarrow> n < 2 \<and> bit b (k * 2 + n)"
  unfolding field_def
  by (simp only: bit_and_iff bit_drop_bit_eq o_apply bit_0x03) auto

lemma bit_encode_field_spec:
  "bit (encode_field_spec f) n \<longleftrightarrow>
     (n = 0 \<and> bit f 1) \<or> (n = 1 \<and> (bit f 1 \<longleftrightarrow> bit f 0))"
proof (cases "n < 8")
  case True
  from nat_less_8_cases [OF this] show ?thesis
    by (elim disjE) (simp_all add: encode_field_spec_def Let_def bit_or_iff)
next
  case False
  then show ?thesis using bit_imp_le_length [of _ n] by fastforce
qed

lemma convert_eq_encode_byte_spec:
  "convert_bitnet_to_stfma_byte b = encode_byte_spec b"
proof (rule bit_word_eqI)
  fix n assume "n < LENGTH(8)"
  then have "n < 8" by simp
  from nat_less_8_cases [OF this]
  show "bit (convert_bitnet_to_stfma_byte b) n = bit (encode_byte_spec b) n"
    by (elim disjE)
       (simp_all add: bit_convert encode_byte_spec_def bit_or_iff bit_push_bit_iff
          bit_encode_field_spec bit_field)
qed

lemma field_convert:
  "k < 4 \<Longrightarrow> field (convert_bitnet_to_stfma_byte b) k = encode_field_spec (field b k)"
  apply (rule bit_word_eqI)
  subgoal for n
    apply (simp add: bit_convert bit_encode_field_spec bit_field)
    apply (cases "n = 0"; cases "n = 1")
       apply auto
    done
  done

lemma field_cases: "field b k = 0 \<or> field b k = 1 \<or> field b k = 2 \<or> field b k = 3"
proof -
  have "field b k \<le> 3" by (simp add: field_def word_and_le1)
  then have "unat (field b k) \<le> 3" by (simp add: word_le_nat_alt)
  then have "unat (field b k) = 0 \<or> unat (field b k) = 1 \<or>
             unat (field b k) = 2 \<or> unat (field b k) = 3"
    by arith
  then show ?thesis
    by (simp add: word_unat_eq_iff)
qed

lemma encode_field_spec_values:
  "encode_field_spec 0 = 2" "encode_field_spec 1 = 0"
  "encode_field_spec 2 = 1" "encode_field_spec 3 = 3"
  by (simp_all add: encode_field_spec_def)

lemma valid_field_encode: "valid_field f \<Longrightarrow> valid_field (encode_field_spec f)"
  by (auto simp: valid_field_def encode_field_spec_values)

text \<open>
  Claim C4. For every byte \<open>b\<close>, \<open>convert_bitnet_to_stfma_byte b\<close> is the byte
  obtained by transforming each of the four 2-bit fields on its own, \<open>(hi, lo)\<close> to
  \<open>(NOT (hi XOR lo), hi)\<close>: each output field is a function of the input field at the
  same position alone. It is also the byte of the bit-plane formula with the masks
  \<open>0x55\<close> and \<open>0xAA\<close>.
\<close>

theorem convert_bitnet_to_stfma_byte_fieldwise:
  "convert_bitnet_to_stfma_byte b = encode_byte_spec b \<and>
   field (convert_bitnet_to_stfma_byte b) 0 = encode_field_spec (field b 0) \<and>
   field (convert_bitnet_to_stfma_byte b) 1 = encode_field_spec (field b 1) \<and>
   field (convert_bitnet_to_stfma_byte b) 2 = encode_field_spec (field b 2) \<and>
   field (convert_bitnet_to_stfma_byte b) 3 = encode_field_spec (field b 3) \<and>
   convert_bitnet_to_stfma_byte b = encode_byte_bitplane_spec b"
proof -
  have plane: "convert_bitnet_to_stfma_byte b = encode_byte_bitplane_spec b"
    unfolding convert_bitnet_to_stfma_byte_def encode_byte_bitplane_spec_def Let_def
    by (rule refl)
  have fields: "field (convert_bitnet_to_stfma_byte b) k = encode_field_spec (field b k)"
    if "k < 4" for k
    using that by (rule field_convert)
  show ?thesis
    using convert_eq_encode_byte_spec [of b] fields [of 0] fields [of 1] fields [of 2]
      fields [of 3] plane
    by simp
qed

subsection \<open>The kernel computes the reference sum\<close>


lemma upt_16: "[0..<16] = [0, 1, 2, 3, 4, 5, 6, 7, 8, 9, 10, 11, 12, 13, 14, 15::nat]"
  by (simp add: upt_rec)

lemma length_16_cases:
  assumes "length (v :: 'a list) = 16"
  obtains v0 v1 v2 v3 v4 v5 v6 v7 v8 v9 v10 v11 v12 v13 v14 v15
  where "v = [v0, v1, v2, v3, v4, v5, v6, v7, v8, v9, v10, v11, v12, v13, v14, v15]"
  using assms by (auto simp: numeral_eq_Suc length_Suc_conv)

lemma horizontal_sum_avx512_sum_list:
  assumes "length v = 16"
  shows "horizontal_sum_avx512 v = sum_list v"
proof -
  from assms obtain v0 v1 v2 v3 v4 v5 v6 v7 v8 v9 v10 v11 v12 v13 v14 v15
    where v: "v = [v0, v1, v2, v3, v4, v5, v6, v7, v8, v9, v10, v11, v12, v13, v14, v15]"
    by (rule length_16_cases)
  show ?thesis
    by (simp add: v horizontal_sum_avx512_def mm512_castsi512_si256_def
        mm512_extracti64x4_epi64_1_def mm256_castsi256_si128_def
        mm256_extracti128_si256_1_def mm_add_epi32_def ac_simps)
qed

lemma fold_add_sum_list:
  "fold (\<lambda>i (r :: int32_t). r + f i) xs acc = acc + sum_list (map f xs)"
  by (induction xs arbitrary: acc) (simp_all add: ac_simps)

lemma scalar_dot_sum_list:
  "scalar_dot weights activations n = sum_list (map (lane_term weights activations) [0..<n])"
  unfolding scalar_dot_def lane_term_def by (simp add: fold_add_sum_list)

lemma bit_load_uint32:
  "bit (fst (load_uint32 mem p)) j \<longleftrightarrow> j < 32 \<and> bit (mem (p + j div 8)) (j mod 8)"
proof (cases "j < 32")
  case False
  then show ?thesis using bit_imp_le_length [of "fst (load_uint32 mem p)" j] by auto
next
  case True
  then consider "j < 8" | "8 \<le> j" "j < 16" | "16 \<le> j" "j < 24" | "24 \<le> j" "j < 32"
    by linarith
  then show ?thesis
  proof cases
    case 1
    then show ?thesis
      by (auto simp add: load_uint32_def bit_or_iff bit_push_bit_iff bit_ucast_iff
          dest: bit_imp_le_length)
  next
    case 2
    then have "j div 8 = 1" "j mod 8 = j - 8" by (simp_all add: div_nat_eqI mod_eq_0_iff_dvd le_mod_geq)
    with 2 show ?thesis
      by (auto simp add: load_uint32_def bit_or_iff bit_push_bit_iff bit_ucast_iff
          dest: bit_imp_le_length)
  next
    case 3
    then have "j div 8 = 2" "j mod 8 = j - 16" by (simp_all add: div_nat_eqI mod_eq_0_iff_dvd le_mod_geq)
    with 3 show ?thesis
      by (auto simp add: load_uint32_def bit_or_iff bit_push_bit_iff bit_ucast_iff
          dest: bit_imp_le_length)
  next
    case 4
    then have "j div 8 = 3" "j mod 8 = j - 24" by (simp_all add: div_nat_eqI mod_eq_0_iff_dvd le_mod_geq)
    with 4 show ?thesis
      by (auto simp add: load_uint32_def bit_or_iff bit_push_bit_iff bit_ucast_iff
          dest: bit_imp_le_length)
  qed
qed


lemma replicate_16: "replicate 16 x = [x, x, x, x, x, x, x, x, x, x, x, x, x, x, x, x]"
  by (simp add: numeral_eq_Suc)

lemma three_eq_mask: "(3 :: 'a::len word) = mask 2"
  by (simp add: mask_eq_exp_minus_1)

lemma bit_word_3: "bit (3 :: 'a::len word) n \<longleftrightarrow> n < 2 \<and> n < LENGTH('a)"
  by (auto simp add: three_eq_mask bit_mask_iff)

lemma unpack_trits_avx512_lanes:
  "unpack_trits_avx512 packed = map (\<lambda>k. drop_bit (k * 2) packed AND 0x3) [0..<16]"
  unfolding unpack_trits_avx512_def mm512_set1_epi32_def mm512_srlv_epi32_def
      mm512_and_si512_def upt_16 Let_def
  by (simp add: replicate_16)

lemma lane_of_loaded_word:
  assumes "k < 16"
  shows "drop_bit (k * 2) (fst (load_uint32 mem p)) AND 0x3 =
         (ucast (field (mem (p + k div 4)) (k mod 4)) :: uint32_t)"
proof (rule bit_word_eqI)
  fix m assume "m < LENGTH(32)"
  have ar: "(k * 2 + m) div 8 = k div 4" "(k * 2 + m) mod 8 = k mod 4 * 2 + m" if "m < 2"
  proof -
    from that have h: "(k * 2 + m) div 2 = k" "(k * 2 + m) mod 2 = m" by simp_all
    have "(k * 2 + m) div (2 * 4) = (k * 2 + m) div 2 div 4" by (rule div_mult2_eq)
    with h show "(k * 2 + m) div 8 = k div 4" by simp
    have "(k * 2 + m) mod (2 * 4) = 2 * ((k * 2 + m) div 2 mod 4) + (k * 2 + m) mod 2"
      by (rule mod_mult2_eq)
    with h show "(k * 2 + m) mod 8 = k mod 4 * 2 + m" by simp
  qed
  show "bit (drop_bit (k * 2) (fst (load_uint32 mem p)) AND 0x3) m =
        bit (ucast (field (mem (p + k div 4)) (k mod 4)) :: uint32_t) m"
  proof (cases "m < 2")
    case True
    then have "m = 0 \<or> m = 1" by arith
    with assms ar [OF True] show ?thesis
      by (auto simp add: bit_and_iff bit_drop_bit_eq bit_load_uint32 bit_ucast_iff
        bit_field)
  next
    case False
    then show ?thesis
      by (simp only: bit_and_iff bit_word_3 bit_ucast_iff bit_field) simp
  qed
qed


lemma length_unpack [simp]: "length (unpack_trits_avx512 packed) = 16"
  by (simp add: unpack_trits_avx512_lanes)

lemma decode_trits_avx512_lanes:
  "length v = 16 \<Longrightarrow> decode_trits_avx512 v = map (\<lambda>x. x - 1) v"
  by (erule length_16_cases)
     (simp add: decode_trits_avx512_def mm512_set1_epi32_def mm512_sub_epi32_def replicate_16)

lemma weight_vec_lanes:
  "decode_trits_avx512 (unpack_trits_avx512 (fst (load_uint32 mem p))) =
     map (\<lambda>k. ucast (field (mem (p + k div 4)) (k mod 4)) - 1) [0..<16]"
  by (simp add: decode_trits_avx512_lanes unpack_trits_avx512_lanes lane_of_loaded_word)

lemma scalar_weight_field:
  "scalar_weight mem i = ucast (field (mem (i div 4)) (i mod 4)) - 1"
  by (simp add: scalar_weight_def field_def)

lemma chunk_index:
  assumes "4 dvd (i::nat)"
  shows "(i + k) div 4 = i div 4 + k div 4" "(i + k) mod 4 = k mod 4"
  using assms by (auto simp: div_plus_div_distrib_dvd_left elim!: dvdE)

lemma map2_map_map: "map2 f (map g xs) (map h xs) = map (\<lambda>x. f (g x) (h x)) xs"
  by (induction xs) simp_all

lemma full_chunk_product:
  assumes "4 dvd i"
  shows "mm512_mullo_epi32
           (decode_trits_avx512 (unpack_trits_avx512 (fst (load_uint32 weights (i div 4)))))
           (fst (mm512_loadu_si512 activations i)) =
         map (\<lambda>k. lane_term weights activations (i + k)) [0..<16]"
  by (simp add: weight_vec_lanes mm512_mullo_epi32_def mm512_loadu_si512_def map2_map_map
      lane_term_def scalar_weight_field chunk_index [OF assms])

lemma sum_list_map2_add:
  "length xs = length ys \<Longrightarrow>
     sum_list (map2 (+) xs ys) = sum_list xs + sum_list (ys :: int32_t list)"
  by (induction xs ys rule: list_induct2) (simp_all add: ac_simps)

lemma map_add_upt: "map (\<lambda>k. f (i + k)) [0..<m] = map f [i..<i + m]"
  by (induction m) simp_all


lemma dense_tail_loop_unfold:
  "dense_tail_loop weights activations n i s =
     (if i + 16 \<le> n then dense_tail_loop weights activations n (i + 16)
        (chunk_step weights activations i s) else (i, s))"
  by (subst dense_tail_loop.simps) (simp add: chunk_step_def Let_def split_def)

lemma dense_loop_unfold:
  "dense_loop weights activations n i s =
     (if i < n then dense_loop weights activations n (i + 16)
        (chunk_step weights activations i s) else s)"
  by (subst dense_loop.simps) (simp add: chunk_step_def Let_def split_def)

lemma upt_4: "[p..<p + 4] = [p, p + 1, p + 2, p + 3]"
  by (simp add: upt_rec)

lemma chunk_step_props:
  assumes "4 dvd i" "length (accumulator s) = 16"
  shows "length (accumulator (chunk_step weights activations i s)) = 16"
    and "sum_list (accumulator (chunk_step weights activations i s)) =
         sum_list (accumulator s) + sum_list (map (lane_term weights activations) [i..<i + 16])"
    and "weight_reads (chunk_step weights activations i s) =
         weight_reads s @ [i div 4..<i div 4 + 4]"
    and "activation_reads (chunk_step weights activations i s) =
         activation_reads s @ [i..<i + 16]"
proof -
  let ?p = "mm512_mullo_epi32
           (decode_trits_avx512 (unpack_trits_avx512 (fst (load_uint32 weights (i div 4)))))
           (fst (mm512_loadu_si512 activations i))"
  have p: "?p = map (lane_term weights activations) [i..<i + 16]"
    using assms(1) by (simp only: full_chunk_product map_add_upt)
  have acc: "accumulator (chunk_step weights activations i s) = map2 (+) (accumulator s) ?p"
    by (simp add: chunk_step_def mm512_add_epi32_def)
  show "length (accumulator (chunk_step weights activations i s)) = 16"
    using assms(2) by (simp only: acc p) simp
  show "sum_list (accumulator (chunk_step weights activations i s)) =
         sum_list (accumulator s) + sum_list (map (lane_term weights activations) [i..<i + 16])"
    using assms(2) by (simp only: acc p) (simp add: sum_list_map2_add)
  show "weight_reads (chunk_step weights activations i s) =
         weight_reads s @ [i div 4..<i div 4 + 4]"
    by (simp add: chunk_step_def load_uint32_def upt_4)
  show "activation_reads (chunk_step weights activations i s) =
         activation_reads s @ [i..<i + 16]"
    using map_add_upt [of "\<lambda>j. j" i 16] by (simp add: chunk_step_def mm512_loadu_si512_def)
qed


lemma chunk_floor:
  assumes "16 dvd (i::nat)" "i \<le> n"
  shows "i + 16 \<le> n \<Longrightarrow> i + 16 \<le> n - n mod 16"
    and "\<not> i + 16 \<le> n \<Longrightarrow> i = n - n mod 16"
    and "i \<le> n - n mod 16"
proof -
  from assms(1) obtain k where k: "i = 16 * k" by (auto elim: dvdE)
  have n: "n - n mod 16 = 16 * (n div 16)" by (simp add: minus_mod_eq_mult_div)
  from assms(2) k have kn: "k \<le> n div 16" by (simp add: less_eq_div_iff_mult_less_eq mult.commute)
  then show "i \<le> n - n mod 16" by (simp add: k n)
  show "i + 16 \<le> n - n mod 16" if "i + 16 \<le> n"
  proof -
    from that k have "16 * Suc k \<le> n" by simp
    then have "Suc k \<le> n div 16" by (simp add: less_eq_div_iff_mult_less_eq mult.commute)
    then show ?thesis by (simp add: k n)
  qed
  show "i = n - n mod 16" if "\<not> i + 16 \<le> n"
  proof -
    from that k have "n < 16 * Suc k" by simp
    then have "n div 16 < Suc k" by (simp add: div_less_iff_less_mult mult.commute)
    with kn have "n div 16 = k" by simp
    then show ?thesis by (simp add: k n)
  qed
qed

lemma dense_tail_loop_props:
  assumes "16 dvd i" "length (accumulator s) = 16" "i \<le> n"
  shows "\<exists>s'. dense_tail_loop weights activations n i s = (n - n mod 16, s') \<and>
           length (accumulator s') = 16 \<and>
           sum_list (accumulator s') =
             sum_list (accumulator s) +
             sum_list (map (lane_term weights activations) [i..<n - n mod 16]) \<and>
           weight_reads s' = weight_reads s @ [i div 4..<(n - n mod 16) div 4] \<and>
           activation_reads s' = activation_reads s @ [i..<n - n mod 16]"
  using assms
proof (induction "n - i" arbitrary: i s rule: less_induct)
  case less
  note dvd = \<open>16 dvd i\<close> and len = \<open>length (accumulator s) = 16\<close> and le = \<open>i \<le> n\<close>
  from dvd have dvd4: "4 dvd i" by (auto elim: dvdE)
  let ?m = "n - n mod 16"
  let ?c = "chunk_step weights activations i s"
  show ?case
  proof (cases "i + 16 \<le> n")
    case False
    from chunk_floor(2) [OF dvd le False] have "i = ?m" .
    then have "[i..<?m] = []" "[i div 4..<?m div 4] = []" by simp_all
    with False len \<open>i = ?m\<close> show ?thesis
      by (subst dense_tail_loop_unfold) simp
  next
    case True
    from chunk_floor(1) [OF dvd le True] have m: "i + 16 \<le> ?m" .
    have "n - (i + 16) < n - i" using True by simp
    moreover have "16 dvd i + 16" using dvd by simp
    moreover have "length (accumulator ?c) = 16" by (rule chunk_step_props(1) [OF dvd4 len])
    moreover have "i + 16 \<le> n" by (rule True)
    ultimately obtain s' where s':
      "dense_tail_loop weights activations n (i + 16) ?c = (?m, s')"
      "length (accumulator s') = 16"
      "sum_list (accumulator s') = sum_list (accumulator ?c) +
         sum_list (map (lane_term weights activations) [i + 16..<?m])"
      "weight_reads s' = weight_reads ?c @ [(i + 16) div 4..<?m div 4]"
      "activation_reads s' = activation_reads ?c @ [i + 16..<?m]"
      using less.hyps [of "i + 16" ?c] by blast
    have split: "[i..<?m] = [i..<i + 16] @ [i + 16..<?m]"
      using m by (metis le_add1 le_Suc_ex upt_add_eq_append)
    have d4: "(i + 16) div 4 = i div 4 + 4" by simp
    have "i div 4 + 4 \<le> ?m div 4" using m d4 by (metis div_le_mono)
    then have split4: "[i div 4..<?m div 4] = [i div 4..<i div 4 + 4] @ [i div 4 + 4..<?m div 4]"
      by (metis le_add1 le_Suc_ex upt_add_eq_append)
    have "dense_tail_loop weights activations n i s = (?m, s')"
      using True s'(1) by (subst dense_tail_loop_unfold) simp
    moreover have "sum_list (accumulator s') = sum_list (accumulator s) +
             sum_list (map (lane_term weights activations) [i..<?m])"
      by (simp add: s'(3) chunk_step_props(2) [OF dvd4 len] split add.assoc)
    moreover have "weight_reads s' = weight_reads s @ [i div 4..<?m div 4]"
      by (simp add: s'(4) chunk_step_props(3) [OF dvd4 len] split4 d4)
    moreover have "activation_reads s' = activation_reads s @ [i..<?m]"
      by (simp add: s'(5) chunk_step_props(4) [OF dvd4 len] split)
    ultimately show ?thesis using s'(2) by blast
  qed
qed



lemma tail_mask_bit:
  "bit (ucast (2 ^ r - 1 :: 32 word) :: mmask16) j \<longleftrightarrow> j < 16 \<and> j < r"
  by (auto simp add: bit_ucast_iff bit_mask_iff simp flip: mask_eq_exp_minus_1)

lemma filter_less_upt: "r \<le> m \<Longrightarrow> filter (\<lambda>j. j < r) [0..<m] = [0..<r]"
  by (induction m) (auto simp: le_Suc_eq)

lemma filter_mask_upt:
  assumes "r \<le> 16"
  shows "filter (\<lambda>j. bit (ucast (2 ^ r - 1 :: 32 word) :: mmask16) j) [0..<16] = [0..<r]"
proof -
  have "filter (\<lambda>j. bit (ucast (2 ^ r - 1 :: 32 word) :: mmask16) j) [0..<16] =
        filter (\<lambda>j. j < r) [0..<16]"
    by (rule filter_cong) (simp_all add: tail_mask_bit)
  with assms show ?thesis by (simp add: filter_less_upt)
qed

lemma sum_list_masked:
  "r \<le> m \<Longrightarrow>
     sum_list (map (\<lambda>j. if j < r then f j else (0 :: int32_t)) [0..<m]) = sum_list (map f [0..<r])"
proof (induction m)
  case 0
  then show ?case by simp
next
  case (Suc m)
  show ?case
  proof (cases "r = Suc m")
    case True
    have "map (\<lambda>j. if j < r then f j else 0) [0..<Suc m] = map f [0..<Suc m]"
      by (rule map_cong) (auto simp add: True)
    then show ?thesis by (simp only: True)
  next
    case False
    with Suc show ?thesis by simp
  qed
qed

lemma masked_product:
  assumes "4 dvd i"
  shows "mm512_maskz_mullo_epi32 (ucast (2 ^ r - 1 :: 32 word))
           (decode_trits_avx512 (unpack_trits_avx512 (fst (load_uint32 weights (i div 4)))))
           (fst (mm512_maskz_loadu_epi32 (ucast (2 ^ r - 1 :: 32 word)) activations i)) =
         map (\<lambda>j. if j < r then lane_term weights activations (i + j) else 0) [0..<16]"
    (is "?lhs = ?rhs")
proof (rule nth_equalityI)
  show "length ?lhs = length ?rhs"
    by (simp add: mm512_maskz_mullo_epi32_def mm512_maskz_loadu_epi32_def weight_vec_lanes)
  fix j assume "j < length ?lhs"
  then have j: "j < 16"
    by (simp add: mm512_maskz_mullo_epi32_def mm512_maskz_loadu_epi32_def weight_vec_lanes)
  then show "?lhs ! j = ?rhs ! j"
    by (simp add: mm512_maskz_mullo_epi32_def mm512_maskz_loadu_epi32_def weight_vec_lanes
        tail_mask_bit lane_term_def scalar_weight_field chunk_index [OF assms(1)])
qed

lemma dense_tail_rest_props:
  assumes "16 dvd i" "length (accumulator s) = 16" "i \<le> n" "n < i + 16"
  shows "length (accumulator (dense_tail_rest weights activations n i s)) = 16"
    and "sum_list (accumulator (dense_tail_rest weights activations n i s)) =
         sum_list (accumulator s) + sum_list (map (lane_term weights activations) [i..<n])"
    and "weight_reads (dense_tail_rest weights activations n i s) =
         weight_reads s @ (if i < n then [i div 4..<i div 4 + 4] else [])"
    and "activation_reads (dense_tail_rest weights activations n i s) =
         activation_reads s @ [i..<n]"
proof -
  from assms(1) have dvd4: "4 dvd i" by (auto elim: dvdE)
  let ?r = "n - i"
  have r: "?r \<le> 16" using assms by simp
  let ?p = "mm512_maskz_mullo_epi32 (ucast (2 ^ ?r - 1 :: 32 word))
           (decode_trits_avx512 (unpack_trits_avx512 (fst (load_uint32 weights (i div 4)))))
           (fst (mm512_maskz_loadu_epi32 (ucast (2 ^ ?r - 1 :: 32 word)) activations i))"
  have p: "?p = map (\<lambda>j. if j < ?r then lane_term weights activations (i + j) else 0) [0..<16]"
    by (rule masked_product [OF dvd4])
  have acc: "accumulator (dense_tail_rest weights activations n i s) =
             (if i < n then map2 (+) (accumulator s) ?p else accumulator s)"
    by (simp add: dense_tail_rest_def Let_def split_def mm512_add_epi32_def push_bit_of_1)
  have n: "i + ?r = n" using assms(3) by simp
  have sum: "sum_list ?p = sum_list (map (lane_term weights activations) [i..<n])"
    using sum_list_masked [OF r, of "\<lambda>j. lane_term weights activations (i + j)"]
      map_add_upt [of "lane_term weights activations" i ?r]
    by (simp only: p n)
  show "length (accumulator (dense_tail_rest weights activations n i s)) = 16"
    using assms(2) by (simp only: acc p) simp
  show "sum_list (accumulator (dense_tail_rest weights activations n i s)) =
         sum_list (accumulator s) + sum_list (map (lane_term weights activations) [i..<n])"
  proof (cases "i < n")
    case True
    have "length (accumulator s) = length ?p" using assms(2) by (simp only: p) simp
    then have "sum_list (map2 (+) (accumulator s) ?p) = sum_list (accumulator s) + sum_list ?p"
      by (rule sum_list_map2_add)
    with True show ?thesis by (simp only: acc sum if_True)
  next
    case False
    then show ?thesis by (simp add: acc)
  qed
  show "weight_reads (dense_tail_rest weights activations n i s) =
         weight_reads s @ (if i < n then [i div 4..<i div 4 + 4] else [])"
    by (simp add: dense_tail_rest_def Let_def split_def load_uint32_def upt_4)
  show "activation_reads (dense_tail_rest weights activations n i s) =
         activation_reads s @ [i..<n]"
    using filter_mask_upt [OF r] map_add_upt [of "\<lambda>j. j" i ?r] n
    by (simp add: dense_tail_rest_def Let_def split_def mm512_maskz_loadu_epi32_def push_bit_of_1)
qed


lemma tail_run_props:
  shows "length (accumulator (dense_avx512_tail_run weights activations n)) = 16"
    and "sum_list (accumulator (dense_avx512_tail_run weights activations n)) =
         sum_list (map (lane_term weights activations) [0..<n])"
    and "weight_reads (dense_avx512_tail_run weights activations n) =
         [0..<4 * ((n + 15) div 16)]"
    and "activation_reads (dense_avx512_tail_run weights activations n) = [0..<n]"
proof -
  let ?m = "n - n mod 16"
  have init: "length (accumulator kernel_init) = 16" "sum_list (accumulator kernel_init) = 0"
    "weight_reads kernel_init = []" "activation_reads kernel_init = []"
    by (simp_all add: kernel_init_def mm512_setzero_si512_def replicate_16)
  from dense_tail_loop_props [of 0 kernel_init n weights activations] init
  obtain s' where s': "dense_tail_loop weights activations n 0 kernel_init = (?m, s')"
    "length (accumulator s') = 16"
    "sum_list (accumulator s') = sum_list (map (lane_term weights activations) [0..<?m])"
    "weight_reads s' = [0..<?m div 4]"
    "activation_reads s' = [0..<?m]"
    by auto
  have run: "dense_avx512_tail_run weights activations n =
             dense_tail_rest weights activations n ?m s'"
    by (simp only: dense_avx512_tail_run_def s'(1) Let_def prod.case)
  have m: "16 dvd ?m" "?m \<le> n" "n < ?m + 16"
  proof -
    show "16 dvd ?m" by (simp add: minus_mod_eq_mult_div)
    show "?m \<le> n" by simp
    have "n mod 16 < 16" by simp
    then show "n < ?m + 16" by arith
  qed
  note rest = dense_tail_rest_props [OF m(1) s'(2) m(2) m(3), of weights activations]
  have split: "[0..<n] = [0..<?m] @ [?m..<n]"
    using m(2) by (metis le_Suc_ex upt_add_eq_append zero_le)
  show "length (accumulator (dense_avx512_tail_run weights activations n)) = 16"
    by (simp only: run rest)
  show "sum_list (accumulator (dense_avx512_tail_run weights activations n)) =
         sum_list (map (lane_term weights activations) [0..<n])"
    by (simp only: run rest s'(3) split map_append sum_list_append)
  show "activation_reads (dense_avx512_tail_run weights activations n) = [0..<n]"
    by (simp only: run rest s'(5) split)
  have md: "?m div 4 = 4 * (n div 16)" by (simp add: minus_mod_eq_mult_div)
  show "weight_reads (dense_avx512_tail_run weights activations n) =
         [0..<4 * ((n + 15) div 16)]"
  proof (cases "?m < n")
    case True
    then have r: "0 < n mod 16" "n mod 16 < 16" by simp_all
    have "n + 15 = (n mod 16 + 15) + n div 16 * 16" by simp
    then have "(n + 15) div 16 = (n mod 16 + 15) div 16 + n div 16"
      by (simp only: div_mult_self1 [of 16 "n mod 16 + 15" "n div 16", simplified] div_mult_self2 div_mult_self3 zero_neq_numeral not_False_eq_True)
    moreover have "(n mod 16 + 15) div 16 = 1"
      using r by (intro div_nat_eqI) simp_all
    ultimately have "4 * ((n + 15) div 16) = 4 * (n div 16) + 4" by simp
    moreover have "[0..<4 * (n div 16) + 4] =
        [0..<4 * (n div 16)] @ [4 * (n div 16)..<4 * (n div 16) + 4]"
      using upt_add_eq_append [of 0 "4 * (n div 16)" 4] by simp
    ultimately show ?thesis
      using True by (simp only: run rest s'(4) md if_True)
  next
    case False
    then have z: "n mod 16 = 0" using m(2) by simp
    have "n + 15 = 15 + n div 16 * 16" using z by (simp add: minus_mod_eq_mult_div [symmetric] mult.commute)
    then have "(n + 15) div 16 = 15 div 16 + n div 16"
      by (simp only: div_mult_self3 zero_neq_numeral not_False_eq_True)
    then have "(n + 15) div 16 = n div 16" by simp
    with False show ?thesis by (simp add: run rest s'(4) md)
  qed
qed

lemma lane_term_of_int:
  "lane_term weights activations i =
     word_of_int ((uint (field (weights (i div 4)) (i mod 4)) - 1) * sint (activations i))"
  by (simp add: lane_term_def scalar_weight_field)

lemma word_of_int_sum_list:
  "(word_of_int (sum_list xs) :: int32_t) = sum_list (map word_of_int xs)"
  by (induction xs) simp_all

lemma sum_terms_of_int:
  "sum_list (map (lane_term weights activations) [0..<n]) =
     word_of_int (reference_sum weights activations n)"
proof -
  have "lane_term weights activations =
        (\<lambda>i. word_of_int ((uint (field (weights (i div 4)) (i mod 4)) - 1) * sint (activations i)))"
    by (rule ext) (rule lane_term_of_int)
  then show ?thesis
    by (simp only: reference_sum_def word_of_int_sum_list map_map o_def)
qed

lemma dense_avx512_tail_sum_list:
  "ggml_bitnet_stfma_dense_avx512_tail weights activations n =
     sum_list (map (lane_term weights activations) [0..<n])"
  unfolding ggml_bitnet_stfma_dense_avx512_tail_def
  by (simp only: horizontal_sum_avx512_sum_list [OF tail_run_props(1)] tail_run_props(2))

text \<open>
  When the integer sum fits into 32 bits, as it does for activations widened from
  8 bits and fewer than \<open>2\<^sup>2\<^sup>4\<close> elements, nothing wraps.
\<close>

lemma dense_avx512_tail_exact:
  assumes "- (2 ^ 31) \<le> reference_sum weights activations n"
    and "reference_sum weights activations n < 2 ^ 31"
  shows "sint (ggml_bitnet_stfma_dense_avx512_tail weights activations n) =
         reference_sum weights activations n"
  using assms
  by (simp add: dense_avx512_tail_sum_list sum_terms_of_int sint_sbintrunc'
      signed_take_bit_int_eq_self)

text \<open>
  Claim C1. For every \<open>n\<close> (so for each of 0, 1, 4, 15, 16, 17, 31, 32, 100), every
  weight memory and every activation memory, the tail kernel returns what the
  non-vectorized loop of the inference file returns: the sum over \<open>i < n\<close> of
  \<open>(field\<^sub>i - 1) * activations[i]\<close> in 32-bit arithmetic, \<open>field\<^sub>i\<close> being sub-field
  \<open>i mod 4\<close> of byte \<open>i div 4\<close>. Read as a signed number it is the integer sum of
  the reference formula, wrapped to 32 bits. Bytes of the weight memory other than
  \<open>i div 4\<close> for \<open>i < n\<close> do not influence the result, whatever they hold.
\<close>

theorem dense_avx512_tail_reference:
  "ggml_bitnet_stfma_dense_avx512_tail weights activations n =
     scalar_dot weights activations n \<and>
   sint (ggml_bitnet_stfma_dense_avx512_tail weights activations n) =
     signed_take_bit 31 (reference_sum weights activations n)"
proof
  let ?terms = "map (lane_term weights activations) [0..<n]"
  have kernel: "ggml_bitnet_stfma_dense_avx512_tail weights activations n = sum_list ?terms"
    by (rule dense_avx512_tail_sum_list)
  have scalar: "scalar_dot weights activations n = sum_list ?terms"
    by (rule scalar_dot_sum_list)
  from kernel scalar
  show "ggml_bitnet_stfma_dense_avx512_tail weights activations n =
        scalar_dot weights activations n"
    by simp
  have "sum_list ?terms = word_of_int (reference_sum weights activations n)"
    by (rule sum_terms_of_int)
  with kernel
  show "sint (ggml_bitnet_stfma_dense_avx512_tail weights activations n) =
        signed_take_bit 31 (reference_sum weights activations n)"
    by (simp add: sint_sbintrunc')
qed

subsection \<open>What the tail kernel reads\<close>

text \<open>
  Claim C2, at \<open>n = 17\<close> and in general. The run loads the activation elements
  \<open>0, \<dots>, n - 1\<close> and no other; at \<open>n = 17\<close> these are the elements 0 to 16, the
  masked load touching lane 0 only. But it loads the weight bytes
  \<open>0, \<dots>, 4 * ceil(n / 16) - 1\<close>: at \<open>n = 17\<close> the tail fetches a whole 32-bit word
  at byte 4, so bytes 5, 6 and 7 are read although element 16, the last one, lives in
  byte \<open>(17 - 1) div 4 = 4\<close>.
\<close>

theorem dense_avx512_tail_reads_at_17:
  "weight_reads (dense_avx512_tail_run weights activations 17) = [0, 1, 2, 3, 4, 5, 6, 7] \<and>
   activation_reads (dense_avx512_tail_run weights activations 17) =
     [0, 1, 2, 3, 4, 5, 6, 7, 8, 9, 10, 11, 12, 13, 14, 15, 16] \<and>
   (17 - 1) div 4 = (4 :: nat) \<and>
   weight_reads (dense_avx512_tail_run weights activations n) = [0..<4 * ((n + 15) div 16)] \<and>
   activation_reads (dense_avx512_tail_run weights activations n) = [0..<n]"
proof -
  have "[0..<4 * ((17 + 15) div 16)] = [0, 1, 2, 3, 4, 5, 6, 7 :: nat]"
    by code_simp
  moreover have "[0..<17] = [0, 1, 2, 3, 4, 5, 6, 7, 8, 9, 10, 11, 12, 13, 14, 15, 16 :: nat]"
    by code_simp
  ultimately show ?thesis
    by (simp only: tail_run_props) simp
qed

subsection \<open>The two kernels on whole chunks\<close>

lemma dense_loop_tail_loop:
  assumes "16 dvd i" "16 dvd n" "i \<le> n"
  shows "dense_tail_loop weights activations n i s =
         (n, dense_loop weights activations n i s)"
  using assms
proof (induction "n - i" arbitrary: i s rule: less_induct)
  case less
  show ?case
  proof (cases "i < n")
    case False
    with less.prems have "i = n" by simp
    then show ?thesis
      by (subst dense_tail_loop_unfold, subst dense_loop_unfold) simp
  next
    case True
    from less.prems obtain a b where ab: "i = 16 * a" "n = 16 * b" by (auto elim!: dvdE)
    with True have "a < b" by simp
    then have "Suc a \<le> b" by simp
    then have le: "i + 16 \<le> n" using ab by simp
    have "n - (i + 16) < n - i" using True by simp
    moreover have "16 dvd i + 16" using less.prems(1) by simp
    ultimately have "dense_tail_loop weights activations n (i + 16)
        (chunk_step weights activations i s) =
        (n, dense_loop weights activations n (i + 16) (chunk_step weights activations i s))"
      using less.hyps [of "i + 16"] less.prems(2) le by blast
    with True le show ?thesis
      by (subst dense_tail_loop_unfold, subst dense_loop_unfold) simp
  qed
qed

lemma dense_run_eq_tail_run:
  assumes "16 dvd n"
  shows "dense_avx512_tail_run weights activations n = dense_avx512_run weights activations n"
proof -
  from assms have "dense_tail_loop weights activations n 0 kernel_init =
        (n, dense_loop weights activations n 0 kernel_init)"
    by (intro dense_loop_tail_loop) simp_all
  then show ?thesis
    by (simp add: dense_avx512_tail_run_def dense_avx512_run_def dense_tail_rest_def)
qed

text \<open>
  Claim C3. When \<open>n\<close> is a multiple of the lane width 16, the plain kernel and the
  tail kernel return the same result for every weight and activation memory.
\<close>

theorem dense_avx512_tail_equivalence:
  assumes "n mod 16 = 0"
  shows "ggml_bitnet_stfma_dense_avx512 weights activations n =
         ggml_bitnet_stfma_dense_avx512_tail weights activations n"
proof -
  from assms have "16 dvd n" by (simp add: dvd_eq_mod_eq_0)
  then show ?thesis
    by (simp add: ggml_bitnet_stfma_dense_avx512_def ggml_bitnet_stfma_dense_avx512_tail_def
        dense_run_eq_tail_run)
qed

theorem dense_avx512_tail_equivalence_witness:
  "(32 :: nat) mod 16 = 0 \<and>
   ggml_bitnet_stfma_dense_avx512 (\<lambda>p. 0x24) (\<lambda>i. of_nat i) 32 = - 120 \<and>
   ggml_bitnet_stfma_dense_avx512_tail (\<lambda>p. 0x24) (\<lambda>i. of_nat i) 32 = - 120"
proof -
  have "ggml_bitnet_stfma_dense_avx512_tail (\<lambda>p. 0x24) (\<lambda>i. of_nat i) 32 = - 120"
    by code_simp
  with dense_avx512_tail_equivalence [of 32 "\<lambda>p. 0x24" "\<lambda>i. of_nat i"] show ?thesis
    by simp
qed

subsection \<open>The conversion loop of the cache\<close>

lemma convert_loop_prefix:
  "k \<le> length buf \<Longrightarrow>
     fold (\<lambda>i (buf, reads).
             (buf[i := convert_bitnet_to_stfma_byte (raw i)], reads @ [i])) [0..<k] (buf, []) =
     (map (\<lambda>i. convert_bitnet_to_stfma_byte (raw i)) [0..<k] @ drop k buf, [0..<k])"
proof (induction k)
  case 0
  then show ?case by simp
next
  case (Suc k)
  then have k: "k < length buf" by simp
  have d: "drop k buf = buf ! k # drop (Suc k) buf"
    using k by (rule Cons_nth_drop_Suc [symmetric])
  have "(map (\<lambda>i. convert_bitnet_to_stfma_byte (raw i)) [0..<k] @ drop k buf)
          [k := convert_bitnet_to_stfma_byte (raw k)] =
        map (\<lambda>i. convert_bitnet_to_stfma_byte (raw i)) [0..<k] @
          [convert_bitnet_to_stfma_byte (raw k)] @ drop (Suc k) buf"
    by (simp add: list_update_append d)
  with Suc show ?case by simp
qed

lemma convert_loop_result:
  "convert_loop raw k (uninit_bytes k) =
     (map (\<lambda>i. convert_bitnet_to_stfma_byte (raw i)) [0..<k], [0..<k])"
  using convert_loop_prefix [of k "uninit_bytes k" raw]
  by (simp add: convert_loop_def uninit_bytes_def)

lemma size_bytes_no_wrap:
  assumes "unat (n :: size_t) + 3 < 2 ^ 64"
  shows "unat ((n + 3) div 4) = (unat n + 3) div 4"
proof -
  have "unat (n + 3) = unat n + 3"
    using assms by (simp add: unat_add_lem [THEN iffD1])
  then show ?thesis by (simp add: unat_div)
qed

lemma cache_weights_run_success:
  assumes "n \<noteq> 0"
  shows "cache_weights_run st (Some raw) n (Some e) (Some b) =
     (Some e,
      st\<lparr>entries := (entries st)(e \<mapsto>
             \<lparr>stfma_weights = Some b, size_bytes = (n + 3) div 4, next = head st\<rparr>),
          buffers := (buffers st)(b \<mapsto>
             map (\<lambda>i. convert_bitnet_to_stfma_byte (raw i)) [0..<unat ((n + 3) div 4)]),
          head := Some e,
          num_entries := num_entries st + 1,
          total_bytes := total_bytes st + (n + 3) div 4\<rparr>,
      [0..<unat ((n + 3) div 4)])"
  using assms by (simp add: cache_weights_run_def Let_def convert_loop_result)

lemma cache_weights_success:
  "n \<noteq> 0 \<Longrightarrow>
   ggml_bitnet_stfma_cache_weights st (Some raw) n (Some e) (Some b) =
     (Some e,
      st\<lparr>entries := (entries st)(e \<mapsto>
             \<lparr>stfma_weights = Some b, size_bytes = (n + 3) div 4, next = head st\<rparr>),
          buffers := (buffers st)(b \<mapsto>
             map (\<lambda>i. convert_bitnet_to_stfma_byte (raw i)) [0..<unat ((n + 3) div 4)]),
          head := Some e,
          num_entries := num_entries st + 1,
          total_bytes := total_bytes st + (n + 3) div 4\<rparr>)"
  by (simp add: ggml_bitnet_stfma_cache_weights_def cache_weights_run_success)

subsection \<open>The registry and the removal loop\<close>

lemma registry_allocated: "registry h p as \<Longrightarrow> a \<in> set as \<Longrightarrow> h a \<noteq> None"
  by (induction as arbitrary: p) (auto split: option.splits)

lemma registry_update_other:
  "a \<notin> set as \<Longrightarrow> registry (h(a := v)) p as = registry h p as"
  by (induction as arbitrary: p) (auto split: option.splits)

lemma registry_unique: "registry h p as \<Longrightarrow> registry h p bs \<Longrightarrow> as = bs"
proof (induction as arbitrary: p bs)
  case Nil
  then show ?case by (cases bs) auto
next
  case (Cons a as)
  then show ?case by (cases bs) (auto split: option.splits)
qed

lemma entry_size_update_other:
  "a \<notin> set as \<Longrightarrow> map (entry_size (h(a := v))) as = map (entry_size h) as"
  by (induction as) (auto simp: entry_size_def)

lemma unlink_loop_end:
  "load_link st cur = Inr None \<Longrightarrow> unlink_loop st handle cur = Some (Inr st)"
  by (subst unlink_loop.simps) simp

lemma unlink_loop_miss:
  "load_link st cur = Inr (Some p) \<Longrightarrow> p \<noteq> handle \<Longrightarrow>
     unlink_loop st handle cur = unlink_loop st handle (Next_link p)"
  by (subst unlink_loop.simps) simp

lemma unlink_loop_hit:
  "load_link st cur = Inr (Some handle) \<Longrightarrow> entries st handle = Some e \<Longrightarrow>
     store_link st cur (next e) = Inr st1 \<Longrightarrow>
     unlink_loop st handle cur =
       Some (Inr (st1\<lparr>num_entries := num_entries st1 - 1,
                       total_bytes := total_bytes st1 - size_bytes e\<rparr>))"
  by (subst unlink_loop.simps) simp

lemma unlink_loop_absent:
  "load_link st cur = Inr p \<Longrightarrow> registry (entries st) p as \<Longrightarrow> handle \<notin> set as \<Longrightarrow>
     unlink_loop st handle cur = Some (Inr st)"
proof (induction as arbitrary: p cur)
  case Nil
  then show ?case by (simp add: unlink_loop_end)
next
  case (Cons a as)
  from Cons.prems obtain e where e: "p = Some a" "entries st a = Some e"
    "registry (entries st) (next e) as"
    by (auto split: option.splits)
  have "load_link st (Next_link a) = Inr (next e)" by (simp add: load_link_def e)
  from Cons.IH [OF this e(3)] Cons.prems(3)
  have "unlink_loop st handle (Next_link a) = Some (Inr st)" by simp
  moreover have "unlink_loop st handle cur = unlink_loop st handle (Next_link a)"
    using Cons.prems e by (intro unlink_loop_miss) auto
  ultimately show ?case by simp
qed


lemma same_payload_refl: "same_payload h h"
  by (simp add: same_payload_def)

lemma same_payload_next: "h a = Some e \<Longrightarrow> same_payload h (h(a \<mapsto> e\<lparr>next := v\<rparr>))"
  by (simp add: same_payload_def)

lemma unlink_loop_present:
  assumes "load_link st cur = Inr p" "registry (entries st) p as" "distinct as"
    "handle \<in> set as" "\<forall>a. cur = Next_link a \<longrightarrow> a \<notin> set as"
  shows "\<exists>st'. unlink_loop st handle cur = Some (Inr st') \<and> unlink_post st cur handle as st'"
  using assms
proof (induction as arbitrary: p cur)
  case Nil
  then show ?case by simp
next
  case (Cons a as)
  from Cons.prems(2) obtain e where e: "p = Some a" "entries st a = Some e"
    "registry (entries st) (next e) as"
    by (auto split: option.splits)
  from Cons.prems(3) have dist: "a \<notin> set as" "distinct as" by simp_all
  show ?case
  proof (cases "a = handle")
    case True
    show ?thesis
    proof (cases cur)
      case Head_link
      let ?st1 = "st\<lparr>head := next e\<rparr>"
      let ?st' = "?st1\<lparr>num_entries := num_entries ?st1 - 1,
                       total_bytes := total_bytes ?st1 - size_bytes e\<rparr>"
      have "unlink_loop st handle cur = Some (Inr ?st')"
        using Cons.prems(1) e True Head_link
        by (intro unlink_loop_hit) (simp_all add: store_link_def)
      moreover have "unlink_post st cur handle (a # as) ?st'"
        using e True Head_link
        by (simp add: unlink_post_def load_link_def entry_size_def same_payload_refl)
      ultimately show ?thesis by blast
    next
      case (Next_link c)
      with Cons.prems(1) obtain ec where ec: "entries st c = Some ec" "next ec = p"
        by (auto simp: load_link_def split: option.splits)
      from Cons.prems(5) Next_link have c: "c \<noteq> a" "c \<notin> set as" by auto
      let ?st1 = "st\<lparr>entries := (entries st)(c \<mapsto> ec\<lparr>next := next e\<rparr>)\<rparr>"
      let ?st' = "?st1\<lparr>num_entries := num_entries ?st1 - 1,
                       total_bytes := total_bytes ?st1 - size_bytes e\<rparr>"
      have "unlink_loop st handle cur = Some (Inr ?st')"
        using Cons.prems(1) e True Next_link ec
        by (intro unlink_loop_hit) (simp_all add: store_link_def)
      moreover have "unlink_post st cur handle (a # as) ?st'"
        using e True Next_link ec c
        by (simp add: unlink_post_def load_link_def entry_size_def same_payload_next
            registry_update_other)
      ultimately show ?thesis by blast
    qed
  next
    case False
    with Cons.prems(4) have mem: "handle \<in> set as" by simp
    have ld: "load_link st (Next_link a) = Inr (next e)" by (simp add: load_link_def e)
    from Cons.IH [OF ld e(3) dist(2) mem] dist(1)
    obtain st' where st': "unlink_loop st handle (Next_link a) = Some (Inr st')"
      "unlink_post st (Next_link a) handle as st'"
      by auto
    have "unlink_loop st handle cur = unlink_loop st handle (Next_link a)"
      using Cons.prems(1) e False by (intro unlink_loop_miss) auto
    with st'(1) have run: "unlink_loop st handle cur = Some (Inr st')" by simp
    from st'(2) obtain p' where p': "load_link st' (Next_link a) = Inr p'"
      "registry (entries st') p' (remove1 handle as)"
      and frame: "\<forall>x. x \<notin> set as \<and> x \<noteq> a \<longrightarrow> entries st' x = entries st x"
      and hd: "head st' = head st"
      by (auto simp: unlink_post_def)
    have cur: "load_link st' cur = Inr (Some a)"
    proof (cases cur)
      case Head_link
      with Cons.prems(1) e hd show ?thesis by (simp add: load_link_def)
    next
      case (Next_link c)
      with Cons.prems(5) have "c \<notin> set as" "c \<noteq> a" by auto
      with frame have "entries st' c = entries st c" by simp
      with Cons.prems(1) e Next_link show ?thesis by (simp add: load_link_def)
    qed
    from p' have reg: "registry (entries st') (Some a) (a # remove1 handle as)"
      by (auto simp: load_link_def split: option.splits)
    have "unlink_post st cur handle (a # as) st'"
      using st'(2) cur reg False frame
      by (auto simp: unlink_post_def)
    with run show ?thesis by blast
  qed
qed


lemma cache_inv_init: "cache_inv (ggml_bitnet_stfma_cache_init st) []"
  by (simp add: cache_inv_def ggml_bitnet_stfma_cache_init_def)

lemma cache_inv_initial: "cache_inv g_cache_initial []"
  by (simp add: cache_inv_def g_cache_initial_def)

lemma cache_inv_cache_weights:
  assumes "cache_inv st ps" "malloc_fresh st malloc_entry malloc_buffer"
  shows "\<exists>ps'. cache_inv
           (snd (ggml_bitnet_stfma_cache_weights st bitnet_weights n malloc_entry malloc_buffer))
           ps'"
proof (cases "\<exists>raw e b. bitnet_weights = Some raw \<and> n \<noteq> 0 \<and> malloc_entry = Some e \<and>
    malloc_buffer = Some b")
  case True
  then obtain raw e b where ok: "bitnet_weights = Some raw" "n \<noteq> 0" "malloc_entry = Some e"
    "malloc_buffer = Some b" by blast
  from assms(2) ok have fresh: "entries st e = None" by (simp add: malloc_fresh_def)
  with assms(1) have e: "e \<notin> set ps"
    using registry_allocated [of "entries st" "head st" ps e] by (auto simp: cache_inv_def)
  have "cache_inv
     (snd (ggml_bitnet_stfma_cache_weights st bitnet_weights n malloc_entry malloc_buffer))
     (e # ps)"
    using assms(1) e ok
    by (simp add: cache_inv_def ggml_bitnet_stfma_cache_weights_def cache_weights_run_def
        Let_def split_def registry_update_other entry_size_update_other entry_size_def)
  then show ?thesis by blast
next
  case False
  have "cache_inv
     (snd (ggml_bitnet_stfma_cache_weights st bitnet_weights n malloc_entry malloc_buffer)) ps"
  proof (cases "\<exists>raw e. bitnet_weights = Some raw \<and> n \<noteq> 0 \<and> malloc_entry = Some e")
    case True
    then obtain raw e where ok: "bitnet_weights = Some raw" "n \<noteq> 0" "malloc_entry = Some e"
      by blast
    with False have b: "malloc_buffer = None" by auto
    from assms(2) ok have fresh: "entries st e = None" by (simp add: malloc_fresh_def)
    then have "(entries st)(e := None) = entries st" by (auto simp: fun_eq_iff)
    with assms(1) ok b show ?thesis
      by (simp add: ggml_bitnet_stfma_cache_weights_def cache_weights_run_def Let_def
          cache_inv_def)
  next
    case False
    with assms(1) show ?thesis
      by (auto simp add: ggml_bitnet_stfma_cache_weights_def cache_weights_run_def
          split: option.splits)
  qed
  then show ?thesis by blast
qed

lemma same_payload_entry_size:
  "same_payload h h' \<Longrightarrow> entry_size h' a = entry_size h a"
  unfolding same_payload_def entry_size_def
  by (erule allE [of _ a]) (auto split: option.splits)

lemma sum_list_remove1:
  "x \<in> set xs \<Longrightarrow>
     sum_list (map f (remove1 x xs)) = sum_list (map f xs) - (f x :: size_t)"
  by (induction xs) auto

lemma of_nat_length_remove1:
  "x \<in> set xs \<Longrightarrow> (of_nat (length (remove1 x xs)) :: size_t) = of_nat (length xs) - 1"
  by (induction xs) auto

lemma cache_inv_free:
  assumes "cache_inv st ps" "ggml_bitnet_stfma_free_cached_weights st (Some h) = Some (Inr st')"
  shows "cache_inv st' (remove1 h ps)"
proof -
  from assms(1) have reg: "registry (entries st) (head st) ps" and dist: "distinct ps"
    by (simp_all add: cache_inv_def)
  have ld: "load_link st Head_link = Inr (head st)" by (simp add: load_link_def)
  obtain st1 where st1: "unlink_loop st h Head_link = Some (Inr st1)"
    "cache_inv st1 (remove1 h ps)"
  proof (cases "h \<in> set ps")
    case False
    from unlink_loop_absent [OF ld reg False]
    have "unlink_loop st h Head_link = Some (Inr st)" .
    moreover from False assms(1) have "cache_inv st (remove1 h ps)" by (simp add: remove1_idem)
    ultimately show ?thesis by (rule that)
  next
    case True
    from unlink_loop_present [OF ld reg dist True]
    obtain st1 where u: "unlink_loop st h Head_link = Some (Inr st1)"
      "unlink_post st Head_link h ps st1" by auto
    from u(2) have sp: "same_payload (entries st) (entries st1)"
      and r1: "registry (entries st1) (head st1) (remove1 h ps)"
      and n1: "num_entries st1 = num_entries st - 1"
      and t1: "total_bytes st1 = total_bytes st - entry_size (entries st) h"
      by (auto simp: unlink_post_def load_link_def)
    have "entry_size (entries st1) = entry_size (entries st)"
      by (rule ext) (rule same_payload_entry_size [OF sp])
    with assms(1) True r1 n1 t1 dist have "cache_inv st1 (remove1 h ps)"
      by (simp add: cache_inv_def sum_list_remove1 of_nat_length_remove1)
    with u(1) show ?thesis by (rule that)
  qed
  from assms(2) st1(1) obtain e st2 where fr: "entries st1 h = Some e"
    "free_buffer st1 (stfma_weights e) = Inr st2" "free_entry st2 h = Inr st'"
    by (auto simp: ggml_bitnet_stfma_free_cached_weights_def split: option.splits sum.splits)
  from fr(2) have st2: "entries st2 = entries st1" "head st2 = head st1"
    "num_entries st2 = num_entries st1" "total_bytes st2 = total_bytes st1"
    by (auto simp: free_buffer_def split: option.splits)
  from fr(3) have st': "entries st' = (entries st2)(h := None)" "head st' = head st2"
    "num_entries st' = num_entries st2" "total_bytes st' = total_bytes st2"
    by (auto simp: free_entry_def split: option.splits)
  from dist have "h \<notin> set (remove1 h ps)" by simp
  with st1(2) show ?thesis
    by (simp add: cache_inv_def st' st2 registry_update_other entry_size_update_other)
qed

lemma cache_inv_shutdown:
  "ggml_bitnet_stfma_cache_shutdown st = Some (Inr st') \<Longrightarrow> cache_inv st' []"
  by (auto simp: ggml_bitnet_stfma_cache_shutdown_def cache_inv_def
      split: option.splits sum.splits)

lemma cache_inv_step:
  assumes "step st st'" "cache_inv st ps"
  shows "\<exists>ps'. cache_inv st' ps'"
  using assms
proof (cases rule: step.cases)
  case step_init
  then show ?thesis using cache_inv_init by blast
next
  case (step_cache_weights malloc_entry malloc_buffer bitnet_weights n)
  then show ?thesis using cache_inv_cache_weights [OF assms(2)] by blast
next
  case (step_free_cached_weights handle)
  show ?thesis
  proof (cases handle)
    case None
    with step_free_cached_weights have "st' = st"
      by (simp add: ggml_bitnet_stfma_free_cached_weights_def)
    with assms(2) show ?thesis by blast
  next
    case (Some h)
    with step_free_cached_weights cache_inv_free [OF assms(2)] show ?thesis by blast
  qed
next
  case step_shutdown
  then show ?thesis using cache_inv_shutdown by blast
qed

subsection \<open>Ownership of buffers; the calls return\<close>

lemma heap_inv_initial: "heap_inv g_cache_initial"
  by (simp add: heap_inv_def g_cache_initial_def)

lemma heap_inv_init: "heap_inv st \<Longrightarrow> heap_inv (ggml_bitnet_stfma_cache_init st)"
  by (simp add: heap_inv_def ggml_bitnet_stfma_cache_init_def)

lemma heap_inv_cong:
  "entries st' = entries st \<Longrightarrow> buffers st' = buffers st \<Longrightarrow> heap_inv st' = heap_inv st"
  by (simp add: heap_inv_def)

lemma heap_inv_cache_weights:
  assumes "heap_inv st" "malloc_fresh st malloc_entry malloc_buffer"
  shows "heap_inv
           (snd (ggml_bitnet_stfma_cache_weights st bitnet_weights n malloc_entry malloc_buffer))"
proof (cases "\<exists>raw e b. bitnet_weights = Some raw \<and> n \<noteq> 0 \<and> malloc_entry = Some e \<and>
    malloc_buffer = Some b")
  case True
  then obtain raw e b where ok: "bitnet_weights = Some raw" "n \<noteq> 0" "malloc_entry = Some e"
    "malloc_buffer = Some b" by blast
  from assms(2) ok have fresh: "entries st e = None" "buffers st b = None"
    by (simp_all add: malloc_fresh_def)
  from assms(1) fresh(2) have nb: "entries st a = Some x \<Longrightarrow> stfma_weights x \<noteq> Some b" for a x
    unfolding heap_inv_def by fastforce
  show ?thesis
    using assms(1) ok fresh nb
    apply (simp add: ggml_bitnet_stfma_cache_weights_def cache_weights_run_def Let_def split_def)
    apply (simp add: heap_inv_def)
    apply (intro conjI allI impI)
     apply fastforce
    apply (metis option.inject)
    done
next
  case False
  have "snd (ggml_bitnet_stfma_cache_weights st bitnet_weights n malloc_entry malloc_buffer) = st"
  proof (cases "\<exists>raw e. bitnet_weights = Some raw \<and> n \<noteq> 0 \<and> malloc_entry = Some e")
    case True
    then obtain raw e where ok: "bitnet_weights = Some raw" "n \<noteq> 0" "malloc_entry = Some e"
      by blast
    with False have b: "malloc_buffer = None" by auto
    from assms(2) ok have fresh: "entries st e = None" by (simp add: malloc_fresh_def)
    then have "(entries st)(e := None) = entries st" by (auto simp: fun_eq_iff)
    with ok b show ?thesis
      by (simp add: ggml_bitnet_stfma_cache_weights_def cache_weights_run_def Let_def)
  next
    case False
    then show ?thesis
      by (auto simp add: ggml_bitnet_stfma_cache_weights_def cache_weights_run_def
          split: option.splits)
  qed
  with assms(1) show ?thesis by simp
qed


lemma heap_inv_same_payload:
  assumes "heap_inv st" "same_payload (entries st) (entries st1)" "buffers st1 = buffers st"
  shows "heap_inv st1"
proof -
  have orig: "\<exists>e0. entries st a = Some e0 \<and> stfma_weights e0 = stfma_weights e1"
    if "entries st1 a = Some e1" for a e1
  proof -
    from assms(2) have "map_option stfma_weights (entries st1 a) =
        map_option stfma_weights (entries st a)"
      by (simp add: same_payload_def)
    with that show ?thesis by (cases "entries st a") auto
  qed
  show ?thesis
    unfolding heap_inv_def
  proof (intro conjI allI impI)
    fix a e assume "entries st1 a = Some e"
    from orig [OF this] obtain e0 where "entries st a = Some e0"
      "stfma_weights e0 = stfma_weights e" by blast
    with assms(1,3) show "\<exists>b. stfma_weights e = Some b \<and> buffers st1 b \<noteq> None"
      unfolding heap_inv_def by metis
  next
    fix a a' e e'
    assume h: "entries st1 a = Some e \<and> entries st1 a' = Some e' \<and>
      stfma_weights e = stfma_weights e'"
    then obtain e0 e0' where "entries st a = Some e0" "stfma_weights e0 = stfma_weights e"
      "entries st a' = Some e0'" "stfma_weights e0' = stfma_weights e'"
      using orig by blast
    with h assms(1) show "a = a'"
      unfolding heap_inv_def by metis
  qed
qed

lemma heap_inv_release:
  assumes "heap_inv st" "entries st h = Some e" "stfma_weights e = Some b"
  shows "heap_inv (st\<lparr>buffers := (buffers st)(b := None), entries := (entries st)(h := None)\<rparr>)"
  unfolding heap_inv_def
proof (intro conjI allI impI)
  fix a x
  assume "entries (st\<lparr>buffers := (buffers st)(b := None),
    entries := (entries st)(h := None)\<rparr>) a = Some x"
  then have a: "a \<noteq> h" "entries st a = Some x" by (auto split: if_splits)
  with assms(1) obtain bx where bx: "stfma_weights x = Some bx" "buffers st bx \<noteq> None"
    unfolding heap_inv_def by blast
  from assms a bx(1) have "bx \<noteq> b" unfolding heap_inv_def by metis
  with bx show "\<exists>b'. stfma_weights x = Some b' \<and>
    buffers (st\<lparr>buffers := (buffers st)(b := None),
      entries := (entries st)(h := None)\<rparr>) b' \<noteq> None"
    by simp
next
  fix a a' x x'
  assume "entries (st\<lparr>buffers := (buffers st)(b := None),
      entries := (entries st)(h := None)\<rparr>) a = Some x \<and>
    entries (st\<lparr>buffers := (buffers st)(b := None),
      entries := (entries st)(h := None)\<rparr>) a' = Some x' \<and>
    stfma_weights x = stfma_weights x'"
  then have "entries st a = Some x" "entries st a' = Some x'" "stfma_weights x = stfma_weights x'"
    by (auto split: if_splits)
  with assms(1) show "a = a'" unfolding heap_inv_def by metis
qed

lemma release_entry:
  assumes "heap_inv st" "entries st h = Some e"
  shows "\<exists>b st2. stfma_weights e = Some b \<and>
           free_buffer st (Some b) = Inr st2 \<and>
           free_entry st2 h =
             Inr (st\<lparr>buffers := (buffers st)(b := None), entries := (entries st)(h := None)\<rparr>)"
proof -
  from assms obtain b where b: "stfma_weights e = Some b" "buffers st b \<noteq> None"
    unfolding heap_inv_def by blast
  then show ?thesis
    using assms(2) by (auto simp: free_buffer_def free_entry_def)
qed

lemma free_allocated_shape:
  assumes "cache_inv st ps" "heap_inv st" "entries st h \<noteq> None"
  shows "\<exists>st1 e b. same_payload (entries st) (entries st1) \<and> buffers st1 = buffers st \<and>
           heap_inv st1 \<and> entries st1 h = Some e \<and> stfma_weights e = Some b \<and>
           ggml_bitnet_stfma_free_cached_weights st (Some h) =
             Some (Inr (st1\<lparr>buffers := (buffers st1)(b := None),
                             entries := (entries st1)(h := None)\<rparr>))"
proof -
  from assms(1) have reg: "registry (entries st) (head st) ps" and dist: "distinct ps"
    by (simp_all add: cache_inv_def)
  have ld: "load_link st Head_link = Inr (head st)" by (simp add: load_link_def)
  obtain st1 where st1: "unlink_loop st h Head_link = Some (Inr st1)"
    "same_payload (entries st) (entries st1)" "buffers st1 = buffers st"
  proof (cases "h \<in> set ps")
    case False
    from unlink_loop_absent [OF ld reg False]
    have "unlink_loop st h Head_link = Some (Inr st)" .
    then show ?thesis using that [of st] by (simp add: same_payload_refl)
  next
    case True
    from unlink_loop_present [OF ld reg dist True]
    obtain st1 where "unlink_loop st h Head_link = Some (Inr st1)"
      "unlink_post st Head_link h ps st1" by auto
    then show ?thesis using that [of st1] by (simp add: unlink_post_def)
  qed
  from heap_inv_same_payload [OF assms(2) st1(2,3)] have inv1: "heap_inv st1" .
  from st1(2) have "(entries st1 h = None) = (entries st h = None)"
    by (simp add: same_payload_def)
  with assms(3) obtain e where e: "entries st1 h = Some e"
    by (cases "entries st1 h") auto
  from release_entry [OF inv1 e] obtain b st2 where rel: "stfma_weights e = Some b"
    "free_buffer st1 (Some b) = Inr st2"
    "free_entry st2 h =
       Inr (st1\<lparr>buffers := (buffers st1)(b := None), entries := (entries st1)(h := None)\<rparr>)"
    by blast
  have "ggml_bitnet_stfma_free_cached_weights st (Some h) =
        Some (Inr (st1\<lparr>buffers := (buffers st1)(b := None),
                        entries := (entries st1)(h := None)\<rparr>))"
    by (simp add: ggml_bitnet_stfma_free_cached_weights_def st1(1) e rel)
  with st1(2,3) inv1 e rel(1) show ?thesis by blast
qed

lemma free_allocated_returns:
  assumes "cache_inv st ps" "heap_inv st" "entries st h \<noteq> None"
  shows "\<exists>st'. ggml_bitnet_stfma_free_cached_weights st (Some h) = Some (Inr st') \<and>
           heap_inv st'"
proof -
  from free_allocated_shape [OF assms] obtain st1 e b where
    s: "heap_inv st1" "entries st1 h = Some e" "stfma_weights e = Some b"
    and run: "ggml_bitnet_stfma_free_cached_weights st (Some h) =
      Some (Inr (st1\<lparr>buffers := (buffers st1)(b := None),
                      entries := (entries st1)(h := None)\<rparr>))"
    by blast
  from heap_inv_release [OF s] run show ?thesis by simp
qed

lemma shutdown_loop_returns:
  assumes "registry (entries st) p as" "distinct as" "heap_inv st"
  shows "\<exists>st'. shutdown_loop st p = Some (Inr st') \<and> heap_inv st'"
  using assms
proof (induction as arbitrary: st p)
  case Nil
  then show ?case by (subst shutdown_loop.simps) simp
next
  case (Cons a as)
  from Cons.prems(1) obtain e where e: "p = Some a" "entries st a = Some e"
    "registry (entries st) (next e) as"
    by (auto split: option.splits)
  from Cons.prems(2) have dist: "a \<notin> set as" "distinct as" by simp_all
  from release_entry [OF Cons.prems(3) e(2)] obtain b st2 where rel: "stfma_weights e = Some b"
    "free_buffer st (Some b) = Inr st2"
    "free_entry st2 a =
       Inr (st\<lparr>buffers := (buffers st)(b := None), entries := (entries st)(a := None)\<rparr>)"
    by blast
  let ?st3 = "st\<lparr>buffers := (buffers st)(b := None), entries := (entries st)(a := None)\<rparr>"
  have "registry (entries ?st3) (next e) as"
    using e(3) dist(1) by (simp add: registry_update_other)
  from Cons.IH [OF this dist(2) heap_inv_release [OF Cons.prems(3) e(2) rel(1)]]
  obtain st' where "shutdown_loop ?st3 (next e) = Some (Inr st')" "heap_inv st'" by blast
  moreover have "shutdown_loop st p = shutdown_loop ?st3 (next e)"
    by (subst shutdown_loop.simps) (simp add: e rel)
  ultimately show ?case by auto
qed


lemma unlink_loop_payload:
  assumes "cache_inv st ps"
  shows "\<exists>st1. unlink_loop st h Head_link = Some (Inr st1) \<and>
           same_payload (entries st) (entries st1) \<and> buffers st1 = buffers st"
proof -
  from assms have reg: "registry (entries st) (head st) ps" and dist: "distinct ps"
    by (simp_all add: cache_inv_def)
  have ld: "load_link st Head_link = Inr (head st)" by (simp add: load_link_def)
  show ?thesis
  proof (cases "h \<in> set ps")
    case False
    from unlink_loop_absent [OF ld reg False] show ?thesis
      by (auto simp: same_payload_refl)
  next
    case True
    from unlink_loop_present [OF ld reg dist True] show ?thesis
      by (auto simp: unlink_post_def)
  qed
qed

lemma heap_inv_free:
  assumes "cache_inv st ps" "heap_inv st"
    "ggml_bitnet_stfma_free_cached_weights st (Some h) = Some (Inr st')"
  shows "heap_inv st'"
proof (cases "entries st h")
  case None
  from unlink_loop_payload [OF assms(1)] obtain st1 where
    st1: "unlink_loop st h Head_link = Some (Inr st1)" "same_payload (entries st) (entries st1)"
    by blast
  from st1(2) None have "entries st1 h = None" by (simp add: same_payload_def)
  with st1(1) assms(3) show ?thesis
    by (simp add: ggml_bitnet_stfma_free_cached_weights_def)
next
  case (Some e)
  then have "entries st h \<noteq> None" by simp
  from free_allocated_returns [OF assms(1,2) this] assms(3) show ?thesis by auto
qed

lemma heap_inv_shutdown:
  assumes "cache_inv st ps" "heap_inv st"
  shows "\<exists>st'. ggml_bitnet_stfma_cache_shutdown st = Some (Inr st') \<and> heap_inv st'"
proof -
  from assms(1) have "registry (entries st) (head st) ps" "distinct ps"
    by (simp_all add: cache_inv_def)
  from shutdown_loop_returns [OF this assms(2)] obtain st1 where
    "shutdown_loop st (head st) = Some (Inr st1)" "heap_inv st1" by blast
  then show ?thesis
    by (simp add: ggml_bitnet_stfma_cache_shutdown_def heap_inv_def)
qed

lemma heap_inv_step:
  assumes "step st st'" "cache_inv st ps" "heap_inv st"
  shows "heap_inv st'"
  using assms(1)
proof (cases rule: step.cases)
  case step_init
  with assms(3) show ?thesis by (simp add: heap_inv_init)
next
  case (step_cache_weights malloc_entry malloc_buffer bitnet_weights n)
  with assms(3) show ?thesis by (simp add: heap_inv_cache_weights)
next
  case (step_free_cached_weights handle)
  show ?thesis
  proof (cases handle)
    case None
    with step_free_cached_weights assms(3) show ?thesis
      by (simp add: ggml_bitnet_stfma_free_cached_weights_def)
  next
    case (Some h)
    with step_free_cached_weights heap_inv_free [OF assms(2,3)] show ?thesis by blast
  qed
next
  case step_shutdown
  with heap_inv_shutdown [OF assms(2,3)] show ?thesis by auto
qed

lemma reachable_invariants: "reachable st \<Longrightarrow> heap_inv st \<and> (\<exists>ps. cache_inv st ps)"
proof (induction rule: reachable.induct)
  case reachable_initial
  show ?case using cache_inv_initial heap_inv_initial by blast
next
  case (reachable_step st st')
  then show ?case using cache_inv_step heap_inv_step by blast
qed

lemma free_live_handle_returns:
  assumes "reachable st" "entries st h \<noteq> None"
  shows "\<exists>st'. ggml_bitnet_stfma_free_cached_weights st (Some h) = Some (Inr st')"
proof -
  from reachable_invariants [OF assms(1)] obtain qs where "heap_inv st" "cache_inv st qs"
    by blast
  with assms(2) show ?thesis using free_allocated_returns by blast
qed

lemma shutdown_returns:
  assumes "reachable st"
  shows "\<exists>st'. ggml_bitnet_stfma_cache_shutdown st = Some (Inr st')"
  using reachable_invariants [OF assms] heap_inv_shutdown by blast

subsection \<open>The live entries are the registered ones; the counters do not wrap\<close>

lemma cache_weights_failure_state:
  assumes "malloc_fresh st malloc_entry malloc_buffer"
    "\<not> (\<exists>raw e b. bitnet_weights = Some raw \<and> n \<noteq> 0 \<and> malloc_entry = Some e \<and>
          malloc_buffer = Some b)"
  shows "snd (ggml_bitnet_stfma_cache_weights st bitnet_weights n malloc_entry malloc_buffer) = st"
proof (cases "\<exists>raw e. bitnet_weights = Some raw \<and> n \<noteq> 0 \<and> malloc_entry = Some e")
  case True
  then obtain raw e where ok: "bitnet_weights = Some raw" "n \<noteq> 0" "malloc_entry = Some e"
    by blast
  with assms(2) have b: "malloc_buffer = None" by auto
  from assms(1) ok have fresh: "entries st e = None" by (simp add: malloc_fresh_def)
  then have "(entries st)(e := None) = entries st" by (auto simp: fun_eq_iff)
  with ok b show ?thesis
    by (simp add: ggml_bitnet_stfma_cache_weights_def cache_weights_run_def Let_def)
next
  case False
  then show ?thesis
    by (auto simp add: ggml_bitnet_stfma_cache_weights_def cache_weights_run_def
        split: option.splits)
qed

lemma heap_bytes_mono:
  assumes "finite (dom (entries st))" "finite (dom (buffers st))"
    "dom (entries st') \<subseteq> dom (entries st)" "buffers st' \<subseteq>\<^sub>m buffers st"
  shows "heap_bytes st' \<le> heap_bytes st"
proof -
  have c: "card (dom (entries st')) \<le> card (dom (entries st))"
    using assms(1,3) by (simp add: card_mono)
  have sub: "dom (buffers st') \<subseteq> dom (buffers st)"
    using assms(4) by (rule map_le_implies_dom_le)
  have "buffer_length st' b = buffer_length st b" if "b \<in> dom (buffers st')" for b
    using assms(4) that by (auto simp: buffer_length_def map_le_def split: option.splits)
  then have "sum (buffer_length st') (dom (buffers st')) =
      sum (buffer_length st) (dom (buffers st'))"
    by (intro sum.cong) simp_all
  also have "\<dots> \<le> sum (buffer_length st) (dom (buffers st))"
    using assms(2) sub by (intro sum_mono2) simp_all
  finally show ?thesis
    using c by (simp add: heap_bytes_def sizeof_cache_entry_def)
qed

lemma live_inv_initial: "live_inv g_cache_initial []"
  by (simp add: live_inv_def g_cache_initial_def heap_bytes_def)

lemma live_inv_init:
  assumes "live_inv st ps" "entries st = Map.empty"
  shows "live_inv (ggml_bitnet_stfma_cache_init st) []"
  using assms
  by (simp add: live_inv_def ggml_bitnet_stfma_cache_init_def heap_bytes_def buffer_length_def)

lemma cache_weights_invariants:
  assumes "cache_inv st ps" "heap_inv st" "live_inv st ps"
    "malloc_fresh st malloc_entry malloc_buffer"
    "heap_bytes (snd (ggml_bitnet_stfma_cache_weights st bitnet_weights n
                        malloc_entry malloc_buffer)) < 2 ^ 64"
  shows "\<exists>ps'. cache_inv
           (snd (ggml_bitnet_stfma_cache_weights st bitnet_weights n malloc_entry malloc_buffer))
           ps' \<and>
         live_inv
           (snd (ggml_bitnet_stfma_cache_weights st bitnet_weights n malloc_entry malloc_buffer))
           ps'"
proof (cases "\<exists>raw e b. bitnet_weights = Some raw \<and> n \<noteq> 0 \<and> malloc_entry = Some e \<and>
    malloc_buffer = Some b")
  case True
  then obtain raw e b where ok: "bitnet_weights = Some raw" "n \<noteq> 0" "malloc_entry = Some e"
    "malloc_buffer = Some b" by blast
  let ?x = "\<lparr>stfma_weights = Some b, size_bytes = (n + 3) div 4, next = head st\<rparr>"
  let ?bytes = "map (\<lambda>i. convert_bitnet_to_stfma_byte (raw i)) [0..<unat ((n + 3) div 4)]"
  let ?st' = "st\<lparr>entries := (entries st)(e \<mapsto> ?x),
          buffers := (buffers st)(b \<mapsto> ?bytes),
          head := Some e,
          num_entries := num_entries st + 1,
          total_bytes := total_bytes st + (n + 3) div 4\<rparr>"
  have run: "snd (ggml_bitnet_stfma_cache_weights st bitnet_weights n malloc_entry
      malloc_buffer) = ?st'"
    using ok by (simp add: cache_weights_success)
  from assms(4) ok have fresh: "entries st e = None" "buffers st b = None"
    by (simp_all add: malloc_fresh_def)
  with assms(1) have e: "e \<notin> set ps"
    using registry_allocated [of "entries st" "head st" ps e] by (auto simp: cache_inv_def)
  have ci: "cache_inv ?st' (e # ps)"
    using assms(1) e
    by (simp add: cache_inv_def registry_update_other entry_size_update_other entry_size_def)
  from assms(3) have dom: "dom (entries st) = set ps" and fin: "finite (dom (buffers st))"
    and len: "entries st a = Some x \<Longrightarrow> stfma_weights x = Some b' \<Longrightarrow>
      buffer_length st b' = unat (size_bytes x)" for a x b'
    unfolding live_inv_def by blast+
  have other: "b' \<noteq> b" if "entries st a = Some x" "stfma_weights x = Some b'" for a x b'
    using assms(2) that fresh(2) unfolding heap_inv_def by fastforce
  have len': "buffer_length ?st' b' = unat (size_bytes x)"
    if "entries ?st' a = Some x" "stfma_weights x = Some b'" for a x b'
  proof (cases "a = e")
    case True
    with that show ?thesis by (auto simp: buffer_length_def)
  next
    case False
    with that have old: "entries st a = Some x" by simp
    from other [OF old that(2)] have "buffer_length ?st' b' = buffer_length st b'"
      by (simp add: buffer_length_def)
    with len [OF old that(2)] show ?thesis by simp
  qed
  have hb: "heap_bytes ?st' < 2 ^ 64" using assms(5) run by simp
  have "live_inv ?st' (e # ps)"
    unfolding live_inv_def
  proof (intro conjI allI impI)
    show "dom (entries ?st') = set (e # ps)" using dom by simp
    show "finite (dom (buffers ?st'))" using fin by simp
    show "heap_bytes ?st' < 2 ^ 64" by (rule hb)
  next
    fix a x b'
    assume "entries ?st' a = Some x \<and> stfma_weights x = Some b'"
    then show "buffer_length ?st' b' = unat (size_bytes x)" using len' by blast
  qed
  with ci run show ?thesis by auto
next
  case False
  from cache_weights_failure_state [OF assms(4) False] assms(1,3) show ?thesis by auto
qed


lemma free_unallocated_faults:
  assumes "cache_inv st ps" "entries st h = None"
  shows "ggml_bitnet_stfma_free_cached_weights st (Some h) = Some (Inl Invalid_pointer)"
proof -
  from unlink_loop_payload [OF assms(1)] obtain st1 where
    st1: "unlink_loop st h Head_link = Some (Inr st1)" "same_payload (entries st) (entries st1)"
    by blast
  from st1(2) assms(2) have "entries st1 h = None" by (simp add: same_payload_def)
  with st1(1) show ?thesis
    by (simp add: ggml_bitnet_stfma_free_cached_weights_def)
qed

lemma same_payload_dom: "same_payload h h' \<Longrightarrow> dom h' = dom h"
  by (auto simp: same_payload_def dom_def)

lemma same_payload_entry:
  assumes "same_payload h h'" "h' a = Some x"
  shows "\<exists>x0. h a = Some x0 \<and> size_bytes x0 = size_bytes x \<and>
           stfma_weights x0 = stfma_weights x"
proof -
  from assms(1) have "map_option size_bytes (h' a) = map_option size_bytes (h a)"
    "map_option stfma_weights (h' a) = map_option stfma_weights (h a)"
    by (simp_all add: same_payload_def)
  with assms(2) show ?thesis by (cases "h a") auto
qed

lemma live_inv_free:
  assumes "cache_inv st ps" "heap_inv st" "live_inv st ps"
    "ggml_bitnet_stfma_free_cached_weights st (Some h) = Some (Inr st')"
  shows "live_inv st' (remove1 h ps)"
proof -
  from assms(1) have dist: "distinct ps" by (simp add: cache_inv_def)
  from assms(3) have dom: "dom (entries st) = set ps" and fin: "finite (dom (buffers st))"
    and hb: "heap_bytes st < 2 ^ 64"
    and len: "entries st a = Some x \<Longrightarrow> stfma_weights x = Some b' \<Longrightarrow>
      buffer_length st b' = unat (size_bytes x)" for a x b'
    unfolding live_inv_def by blast+
  have "entries st h \<noteq> None"
    using free_unallocated_faults [OF assms(1)] assms(4) by (cases "entries st h") auto
  from free_allocated_shape [OF assms(1,2) this] assms(4)
  obtain st1 e b where sp: "same_payload (entries st) (entries st1)"
    and bf: "buffers st1 = buffers st" and inv1: "heap_inv st1"
    and e: "entries st1 h = Some e" "stfma_weights e = Some b"
    and st': "st' = st1\<lparr>buffers := (buffers st1)(b := None),
                        entries := (entries st1)(h := None)\<rparr>"
    by auto
  have d1: "dom (entries st1) = set ps" using same_payload_dom [OF sp] dom by simp
  have d': "dom (entries st') = set (remove1 h ps)"
    using d1 dist by (simp add: st' set_remove1_eq)
  have le: "buffers st' \<subseteq>\<^sub>m buffers st"
    by (simp add: st' bf map_le_def)
  have "heap_bytes st' \<le> heap_bytes st"
  proof (rule heap_bytes_mono)
    show "finite (dom (entries st))" by (simp add: dom)
    show "finite (dom (buffers st))" by (rule fin)
    show "dom (entries st') \<subseteq> dom (entries st)" using d' dom by (auto simp: set_remove1_eq dist)
    show "buffers st' \<subseteq>\<^sub>m buffers st" by (rule le)
  qed
  with hb have hb': "heap_bytes st' < 2 ^ 64" by simp
  have len': "buffer_length st' b' = unat (size_bytes x)"
    if "entries st' a = Some x" "stfma_weights x = Some b'" for a x b'
  proof -
    from that(1) have a: "a \<noteq> h" "entries st1 a = Some x"
      by (auto simp: st' split: if_splits)
    from inv1 a e that(2) have "b' \<noteq> b" unfolding heap_inv_def by metis
    then have "buffer_length st' b' = buffer_length st b'"
      by (simp add: st' bf buffer_length_def)
    moreover from same_payload_entry [OF sp a(2)] obtain x0 where
      "entries st a = Some x0" "size_bytes x0 = size_bytes x"
      "stfma_weights x0 = stfma_weights x" by blast
    with len [of a x0 b'] that(2) have "buffer_length st b' = unat (size_bytes x)" by simp
    ultimately show ?thesis by simp
  qed
  show ?thesis
    unfolding live_inv_def
  proof (intro conjI allI impI)
    show "dom (entries st') = set (remove1 h ps)" by (rule d')
    show "finite (dom (buffers st'))" using fin by (simp add: st' bf)
    show "heap_bytes st' < 2 ^ 64" by (rule hb')
  next
    fix a x b'
    assume "entries st' a = Some x \<and> stfma_weights x = Some b'"
    then show "buffer_length st' b' = unat (size_bytes x)" using len' by blast
  qed
qed

lemma shutdown_loop_frees:
  assumes "registry (entries st) p as" "distinct as" "heap_inv st"
  shows "\<exists>st'. shutdown_loop st p = Some (Inr st') \<and>
           dom (entries st') = dom (entries st) - set as \<and> buffers st' \<subseteq>\<^sub>m buffers st"
  using assms
proof (induction as arbitrary: st p)
  case Nil
  then show ?case by (subst shutdown_loop.simps) simp
next
  case (Cons a as)
  from Cons.prems(1) obtain e where e: "p = Some a" "entries st a = Some e"
    "registry (entries st) (next e) as"
    by (auto split: option.splits)
  from Cons.prems(2) have dist: "a \<notin> set as" "distinct as" by simp_all
  from release_entry [OF Cons.prems(3) e(2)] obtain b st2 where rel: "stfma_weights e = Some b"
    "free_buffer st (Some b) = Inr st2"
    "free_entry st2 a =
       Inr (st\<lparr>buffers := (buffers st)(b := None), entries := (entries st)(a := None)\<rparr>)"
    by blast
  let ?st3 = "st\<lparr>buffers := (buffers st)(b := None), entries := (entries st)(a := None)\<rparr>"
  have "registry (entries ?st3) (next e) as"
    using e(3) dist(1) by (simp add: registry_update_other)
  from Cons.IH [OF this dist(2) heap_inv_release [OF Cons.prems(3) e(2) rel(1)]]
  obtain st' where st': "shutdown_loop ?st3 (next e) = Some (Inr st')"
    "dom (entries st') = dom (entries ?st3) - set as" "buffers st' \<subseteq>\<^sub>m buffers ?st3"
    by blast
  have run: "shutdown_loop st p = shutdown_loop ?st3 (next e)"
    by (subst shutdown_loop.simps) (simp add: e rel)
  have "buffers ?st3 \<subseteq>\<^sub>m buffers st" by (simp add: map_le_def)
  with st'(3) have "buffers st' \<subseteq>\<^sub>m buffers st" by (rule map_le_trans)
  moreover from st'(2) have "dom (entries st') = dom (entries st) - set (a # as)" by auto
  ultimately show ?case using run st'(1) by simp
qed

lemma live_inv_shutdown:
  assumes "cache_inv st ps" "heap_inv st" "live_inv st ps"
    "ggml_bitnet_stfma_cache_shutdown st = Some (Inr st')"
  shows "live_inv st' []"
proof -
  from assms(1) have reg: "registry (entries st) (head st) ps" "distinct ps"
    by (simp_all add: cache_inv_def)
  from assms(3) have dom: "dom (entries st) = set ps" and fin: "finite (dom (buffers st))"
    and hb: "heap_bytes st < 2 ^ 64"
    unfolding live_inv_def by blast+
  from shutdown_loop_frees [OF reg assms(2)] obtain st1 where
    st1: "shutdown_loop st (head st) = Some (Inr st1)"
    "dom (entries st1) = dom (entries st) - set ps" "buffers st1 \<subseteq>\<^sub>m buffers st"
    by blast
  with assms(4) have st': "st' = st1\<lparr>head := None, num_entries := 0, total_bytes := 0\<rparr>"
    by (simp add: ggml_bitnet_stfma_cache_shutdown_def)
  from st1(2) dom have empty: "dom (entries st') = {}" by (simp add: st')
  have sub: "dom (buffers st1) \<subseteq> dom (buffers st)"
    using st1(3) by (rule map_le_implies_dom_le)
  have "heap_bytes st1 \<le> heap_bytes st"
  proof (rule heap_bytes_mono)
    show "finite (dom (entries st))" by (simp add: dom)
    show "finite (dom (buffers st))" by (rule fin)
    show "dom (entries st1) \<subseteq> dom (entries st)" using st1(2) by auto
    show "buffers st1 \<subseteq>\<^sub>m buffers st" by (rule st1(3))
  qed
  moreover have "heap_bytes st' = heap_bytes st1"
    by (simp add: st' heap_bytes_def buffer_length_def)
  ultimately have hb': "heap_bytes st' < 2 ^ 64" using hb by simp
  show ?thesis
    unfolding live_inv_def
  proof (intro conjI allI impI)
    show "dom (entries st') = set []" using empty by simp
    show "finite (dom (buffers st'))" using fin sub by (simp add: st' finite_subset)
    show "heap_bytes st' < 2 ^ 64" by (rule hb')
  next
    fix a x b'
    assume "entries st' a = Some x \<and> stfma_weights x = Some b'"
    with empty show "buffer_length st' b' = unat (size_bytes x)" by auto
  qed
qed

lemma live_inv_step:
  assumes "step st st'" "cache_inv st ps" "heap_inv st" "live_inv st ps"
  shows "\<exists>ps'. cache_inv st' ps' \<and> live_inv st' ps'"
  using assms(1)
proof (cases rule: step.cases)
  case step_init
  with live_inv_init [OF assms(4)] cache_inv_init show ?thesis by blast
next
  case (step_cache_weights malloc_entry malloc_buffer bitnet_weights n)
  with cache_weights_invariants [OF assms(2,3,4)] show ?thesis by blast
next
  case (step_free_cached_weights handle)
  show ?thesis
  proof (cases handle)
    case None
    with step_free_cached_weights have "st' = st"
      by (simp add: ggml_bitnet_stfma_free_cached_weights_def)
    with assms(2,4) show ?thesis by blast
  next
    case (Some h)
    with step_free_cached_weights cache_inv_free [OF assms(2)] live_inv_free [OF assms(2,3,4)]
    show ?thesis by blast
  qed
next
  case step_shutdown
  with cache_inv_shutdown live_inv_shutdown [OF assms(2,3,4)] show ?thesis by blast
qed

lemma reachable_live_inv:
  "reachable st \<Longrightarrow> heap_inv st \<and> (\<exists>ps. cache_inv st ps \<and> live_inv st ps)"
proof (induction rule: reachable.induct)
  case reachable_initial
  show ?case using cache_inv_initial heap_inv_initial live_inv_initial by blast
next
  case (reachable_step st st')
  then obtain ps where inv: "heap_inv st" "cache_inv st ps" "live_inv st ps" by blast
  from heap_inv_step [OF reachable_step(2) inv(2,1)] live_inv_step [OF reachable_step(2) inv(2,1,3)]
  show ?case by blast
qed

lemma unat_sum_list:
  "sum_list (map (\<lambda>x. unat (f x)) xs) < 2 ^ 64 \<Longrightarrow>
     unat (sum_list (map f xs) :: size_t) = sum_list (map (\<lambda>x. unat (f x)) xs)"
proof (induction xs)
  case Nil
  then show ?case by simp
next
  case (Cons a xs)
  then have ih: "unat (sum_list (map f xs)) = sum_list (map (\<lambda>x. unat (f x)) xs)" by simp
  with Cons.prems have "unat (f a) + unat (sum_list (map f xs)) < 2 ^ LENGTH(64)" by simp
  then have "unat (f a + sum_list (map f xs)) = unat (f a) + unat (sum_list (map f xs))"
    by (simp only: unat_add_lem)
  with ih show ?case by simp
qed

lemma counters_exact:
  assumes "cache_inv st ps" "heap_inv st" "live_inv st ps"
  shows "unat (num_entries st) = card (dom (entries st)) \<and>
         unat (total_bytes st) = (\<Sum>a\<in>dom (entries st). unat (entry_size (entries st) a))"
proof -
  from assms(1) have dist: "distinct ps" and num: "num_entries st = of_nat (length ps)"
    and tot: "total_bytes st = sum_list (map (entry_size (entries st)) ps)"
    by (simp_all add: cache_inv_def)
  from assms(3) have dom: "dom (entries st) = set ps" and fin: "finite (dom (buffers st))"
    and hb: "heap_bytes st < 2 ^ 64"
    and len: "entries st a = Some x \<Longrightarrow> stfma_weights x = Some b' \<Longrightarrow>
      buffer_length st b' = unat (size_bytes x)" for a x b'
    unfolding live_inv_def by blast+
  have card: "card (dom (entries st)) = length ps" using dom dist by (simp add: distinct_card)
  have "card (dom (entries st)) \<le> heap_bytes st"
    by (simp add: heap_bytes_def sizeof_cache_entry_def)
  with hb card have "length ps < 2 ^ 64" by simp
  then have n: "unat (num_entries st) = card (dom (entries st))"
    by (simp add: num card unat_of_nat)
  define owner where "owner a = the (stfma_weights (the (entries st a)))" for a
  have own: "\<exists>x. entries st a = Some x \<and> stfma_weights x = Some (owner a) \<and>
      buffers st (owner a) \<noteq> None" if "a \<in> dom (entries st)" for a
    using assms(2) that unfolding heap_inv_def owner_def by fastforce
  have inj: "inj_on owner (dom (entries st))"
  proof (rule inj_onI)
    fix a a' assume "a \<in> dom (entries st)" "a' \<in> dom (entries st)" "owner a = owner a'"
    with own [of a] own [of a'] assms(2) show "a = a'"
      unfolding heap_inv_def by metis
  qed
  have img: "owner ` dom (entries st) \<subseteq> dom (buffers st)" using own by auto
  have "(\<Sum>a\<in>dom (entries st). unat (entry_size (entries st) a)) =
      (\<Sum>a\<in>dom (entries st). buffer_length st (owner a))"
  proof (rule sum.cong)
    fix a assume "a \<in> dom (entries st)"
    from own [OF this] obtain x where x: "entries st a = Some x"
      "stfma_weights x = Some (owner a)" by blast
    from len [OF x] x(1) show "unat (entry_size (entries st) a) = buffer_length st (owner a)"
      by (simp add: entry_size_def)
  qed simp
  also have "\<dots> = sum (buffer_length st) (owner ` dom (entries st))"
    using inj by (simp add: sum.reindex)
  also have "\<dots> \<le> sum (buffer_length st) (dom (buffers st))"
    using fin img by (intro sum_mono2) simp_all
  also have "\<dots> \<le> heap_bytes st" by (simp add: heap_bytes_def)
  finally have bound: "(\<Sum>a\<in>dom (entries st). unat (entry_size (entries st) a)) < 2 ^ 64"
    using hb by simp
  have conv: "sum_list (map (\<lambda>a. unat (entry_size (entries st) a)) ps) =
      (\<Sum>a\<in>dom (entries st). unat (entry_size (entries st) a))"
    using dist dom by (simp add: sum_list_distinct_conv_sum_set)
  with bound have "unat (sum_list (map (entry_size (entries st)) ps)) =
      sum_list (map (\<lambda>a. unat (entry_size (entries st) a)) ps)"
    by (intro unat_sum_list) simp
  with conv tot have "unat (total_bytes st) =
      (\<Sum>a\<in>dom (entries st). unat (entry_size (entries st) a))" by simp
  with n show ?thesis by simp
qed

subsection \<open>The claims about the cache\<close>

lemma scenario_A_reachable: "reachable scenario_A"
proof -
  let ?s1 = "snd (ggml_bitnet_stfma_cache_weights g_cache_initial (Some tensor_a) 16
                    (Some 10) (Some 11))"
  let ?s2 = "snd (ggml_bitnet_stfma_cache_weights ?s1 (Some tensor_b) 20 (Some 20) (Some 21))"
  let ?s3 = "snd (ggml_bitnet_stfma_cache_weights ?s2 (Some tensor_c) 4 (Some 30) (Some 31))"
  have "malloc_fresh g_cache_initial (Some 10) (Some 11)"
    by (simp add: malloc_fresh_def g_cache_initial_def)
  moreover have "heap_bytes ?s1 < 2 ^ 64"
    by (simp add: cache_weights_success g_cache_initial_def heap_bytes_def buffer_length_def
        sizeof_cache_entry_def)
  ultimately have "step g_cache_initial ?s1" by (rule step_cache_weights)
  with reachable_initial have r1: "reachable ?s1" by (rule reachable_step)
  have "malloc_fresh ?s1 (Some 20) (Some 21)"
    by (simp add: malloc_fresh_def cache_weights_success g_cache_initial_def)
  moreover have "heap_bytes ?s2 < 2 ^ 64"
    by (simp add: cache_weights_success g_cache_initial_def heap_bytes_def buffer_length_def
        sizeof_cache_entry_def)
  ultimately have "step ?s1 ?s2" by (rule step_cache_weights)
  with r1 have r2: "reachable ?s2" by (rule reachable_step)
  have "malloc_fresh ?s2 (Some 30) (Some 31)"
    by (simp add: malloc_fresh_def cache_weights_success g_cache_initial_def)
  moreover have "heap_bytes ?s3 < 2 ^ 64"
    by (simp add: cache_weights_success g_cache_initial_def heap_bytes_def buffer_length_def
        sizeof_cache_entry_def)
  ultimately have "step ?s2 ?s3" by (rule step_cache_weights)
  with r2 have "reachable ?s3" by (rule reachable_step)
  moreover have "scenario_A = ?s3"
    by (simp add: scenario_A_def split_def Let_def)
  ultimately show ?thesis by simp
qed

lemma scenario_A_stats: "ggml_bitnet_stfma_cache_stats scenario_A = (3, 10)"
  by (simp add: scenario_A_def cache_weights_success g_cache_initial_def
      ggml_bitnet_stfma_cache_stats_def)

lemma scenario_A_registry:
  "registry (entries scenario_A) (head scenario_A) [30, 20, 10]"
  by (simp add: scenario_A_def cache_weights_success g_cache_initial_def)

lemma scenario_B_stats:
  "map_option (map_sum id ggml_bitnet_stfma_cache_stats) scenario_B = Some (Inr (2, 5))"
proof -
  have ld: "load_link scenario_A Head_link = Inr (Some 30)"
    by (simp add: load_link_def scenario_A_def cache_weights_success g_cache_initial_def)
  have ld2: "load_link scenario_A (Next_link 30) = Inr (Some 20)"
    by (simp add: load_link_def scenario_A_def cache_weights_success g_cache_initial_def)
  have e20: "entries scenario_A 20 =
      Some \<lparr>stfma_weights = Some 21, size_bytes = 5, next = Some 10\<rparr>"
    by (simp add: scenario_A_def cache_weights_success g_cache_initial_def)
  have e30: "entries scenario_A 30 =
      Some \<lparr>stfma_weights = Some 31, size_bytes = 1, next = Some 20\<rparr>"
    by (simp add: scenario_A_def cache_weights_success g_cache_initial_def)
  have b21: "buffers scenario_A 21 \<noteq> None"
    by (simp add: scenario_A_def cache_weights_success g_cache_initial_def)
  have st: "num_entries scenario_A = 3" "total_bytes scenario_A = 10"
    using scenario_A_stats by (simp_all add: ggml_bitnet_stfma_cache_stats_def)
  let ?st1 = "scenario_A\<lparr>entries := (entries scenario_A)(30 \<mapsto>
          \<lparr>stfma_weights = Some 31, size_bytes = 1, next = Some 10\<rparr>)\<rparr>"
  have sl: "store_link scenario_A (Next_link 30)
      (next \<lparr>stfma_weights = Some 21, size_bytes = 5, next = Some 10\<rparr>) = Inr ?st1"
    by (simp add: store_link_def e30)
  have "unlink_loop scenario_A 20 Head_link = unlink_loop scenario_A 20 (Next_link 30)"
    using ld by (rule unlink_loop_miss) simp
  also have "\<dots> = Some (Inr (?st1\<lparr>num_entries := num_entries ?st1 - 1,
       total_bytes := total_bytes ?st1 -
         size_bytes \<lparr>stfma_weights = Some 21, size_bytes = 5, next = Some 10\<rparr>\<rparr>))"
    using ld2 e20 sl by (rule unlink_loop_hit)
  finally show ?thesis
    using b21
    by (auto simp add: scenario_B_def ggml_bitnet_stfma_free_cached_weights_def e20
        free_buffer_def free_entry_def ggml_bitnet_stfma_cache_stats_def st)
qed

text \<open>
  Claim C5, with the two restrictions the code forces: the bound on \<open>n\<close> below which
  \<^verbatim>\<open>(n + 3) / 4\<close> does not wrap, and \<^verbatim>\<open>ggml_bitnet_stfma_cache_init\<close> called only
  while no entry is live. For every \<open>n\<close> with \<open>1 \<le> n \<le> SIZE_MAX - 3\<close>, a call of
  \<^verbatim>\<open>ggml_bitnet_stfma_cache_weights\<close> whose allocations succeed returns the new entry;
  the entry records \<open>ceil(n / 4) = (n + 3) div 4\<close> bytes, its buffer has exactly that
  many bytes, each the encoding of the source byte at the same offset, and the source
  offsets read are exactly \<open>0, \<dots>, ceil(n / 4) - 1\<close>. And in every state reached from
  program start by calls of cache_weights, free_cached_weights and shutdown that
  return, and of init while no entry is live: the live entries (the allocated ones)
  are exactly the entries linked from \<^verbatim>\<open>g_cache.head\<close>; \<^verbatim>\<open>num_entries\<close> as reported by
  \<^verbatim>\<open>cache_stats\<close> is their number, and \<^verbatim>\<open>total_bytes\<close> is the sum of their
  \<^verbatim>\<open>size_bytes\<close>. Both are equalities of natural numbers: the counters have not
  wrapped, because every entry and every byte counted is part of a live block.
\<close>

theorem cache_weights_size_and_accounting:
  "(n \<noteq> 0 \<and> unat n + 3 < 2 ^ 64 \<longrightarrow>
      (case cache_weights_run st (Some raw) n (Some e) (Some b) of
         (handle, st', reads) \<Rightarrow>
           handle = Some e \<and>
           map_option stfma_weights (entries st' e) = Some (Some b) \<and>
           map_option (unat \<circ> size_bytes) (entries st' e) = Some ((unat n + 3) div 4) \<and>
           map_option length (buffers st' b) = Some ((unat n + 3) div 4) \<and>
           buffers st' b =
             Some (map (\<lambda>i. convert_bitnet_to_stfma_byte (raw i)) [0..<(unat n + 3) div 4]) \<and>
           reads = [0..<(unat n + 3) div 4] \<and>
           ggml_bitnet_stfma_cache_weights st (Some raw) n (Some e) (Some b) = (handle, st'))) \<and>
   (reachable rs \<longrightarrow>
      (\<exists>ps. registry (entries rs) (head rs) ps \<and> set ps = dom (entries rs)) \<and>
      unat (fst (ggml_bitnet_stfma_cache_stats rs)) = card (dom (entries rs)) \<and>
      unat (snd (ggml_bitnet_stfma_cache_stats rs)) =
        (\<Sum>a\<in>dom (entries rs). unat (entry_size (entries rs) a)))"
proof (intro conjI impI)
  assume "n \<noteq> 0 \<and> unat n + 3 < 2 ^ 64"
  then show "case cache_weights_run st (Some raw) n (Some e) (Some b) of
         (handle, st', reads) \<Rightarrow>
           handle = Some e \<and>
           map_option stfma_weights (entries st' e) = Some (Some b) \<and>
           map_option (unat \<circ> size_bytes) (entries st' e) = Some ((unat n + 3) div 4) \<and>
           map_option length (buffers st' b) = Some ((unat n + 3) div 4) \<and>
           buffers st' b =
             Some (map (\<lambda>i. convert_bitnet_to_stfma_byte (raw i)) [0..<(unat n + 3) div 4]) \<and>
           reads = [0..<(unat n + 3) div 4] \<and>
           ggml_bitnet_stfma_cache_weights st (Some raw) n (Some e) (Some b) = (handle, st')"
    by (simp add: cache_weights_run_success ggml_bitnet_stfma_cache_weights_def
        size_bytes_no_wrap)
next
  assume "reachable rs"
  then obtain ps where inv: "heap_inv rs" "cache_inv rs ps" "live_inv rs ps"
    using reachable_live_inv by blast
  from inv(2,3) show "\<exists>ps. registry (entries rs) (head rs) ps \<and> set ps = dom (entries rs)"
    by (auto simp: cache_inv_def live_inv_def)
  from counters_exact [OF inv(2,1,3)]
  show "unat (fst (ggml_bitnet_stfma_cache_stats rs)) = card (dom (entries rs))"
    and "unat (snd (ggml_bitnet_stfma_cache_stats rs)) =
        (\<Sum>a\<in>dom (entries rs). unat (entry_size (entries rs) a))"
    by (simp_all add: ggml_bitnet_stfma_cache_stats_def)
qed

theorem cache_weights_size_and_accounting_witness:
  "((20 :: size_t) \<noteq> 0 \<and> unat (20 :: size_t) + 3 < 2 ^ 64) \<and>
   cache_weights_run g_cache_initial (Some tensor_b) 20 (Some 20) (Some 21) =
     (Some 20,
      \<lparr>entries = [20 \<mapsto> \<lparr>stfma_weights = Some 21, size_bytes = 5, next = None\<rparr>],
       buffers = [21 \<mapsto> [0x89, 0x89, 0x89, 0x89, 0x89]],
       head = Some 20, num_entries = 1, total_bytes = 5\<rparr>,
      [0, 1, 2, 3, 4]) \<and>
   reachable scenario_A \<and>
   ggml_bitnet_stfma_cache_stats scenario_A = (3, 10) \<and>
   (\<exists>ps. registry (entries scenario_A) (head scenario_A) ps \<and>
         set ps = dom (entries scenario_A)) \<and>
   card (dom (entries scenario_A)) = 3 \<and>
   (\<Sum>a\<in>dom (entries scenario_A). unat (entry_size (entries scenario_A) a)) = 10"
proof -
  have run: "cache_weights_run g_cache_initial (Some tensor_b) 20 (Some 20) (Some 21) =
     (Some 20,
      \<lparr>entries = [20 \<mapsto> \<lparr>stfma_weights = Some 21, size_bytes = 5, next = None\<rparr>],
       buffers = [21 \<mapsto> [0x89, 0x89, 0x89, 0x89, 0x89]],
       head = Some 20, num_entries = 1, total_bytes = 5\<rparr>,
      [0, 1, 2, 3, 4])"
    by (simp add: cache_weights_run_success g_cache_initial_def tensor_b_def
        convert_bitnet_to_stfma_byte_def upt_rec)
  from cache_weights_size_and_accounting
    [where n = 20 and st = g_cache_initial and raw = tensor_b and e = 20 and b = 21
      and rs = scenario_A] scenario_A_reachable scenario_A_stats run
  show ?thesis by simp
qed

text \<open>
  The two ways in which the code departs from the claim as it was stated. At
  \<open>n = SIZE_MAX\<close> the sum \<^verbatim>\<open>n + 3\<close> wraps to 2: the call succeeds with a buffer of 0
  bytes, while \<open>ceil(n / 4)\<close> is \<open>2\<^sup>6\<^sup>2\<close>. And \<^verbatim>\<open>ggml_bitnet_stfma_cache_init\<close> after a
  tensor of 16 elements has been cached resets the counters and frees nothing:
  \<^verbatim>\<open>cache_stats\<close> reports no entry and no byte, while the entry is still allocated,
  records 4 bytes, and \<^verbatim>\<open>ggml_bitnet_stfma_get_cached_weights\<close> of its handle returns
  its buffer.
\<close>

theorem cache_size_wraps_and_init_orphans:
  "fst (ggml_bitnet_stfma_cache_weights g_cache_initial (Some tensor_a) 18446744073709551615 (Some 10) (Some 11))
     = Some 10 \<and>
   buffers (snd (ggml_bitnet_stfma_cache_weights g_cache_initial (Some tensor_a)
     18446744073709551615 (Some 10) (Some 11))) 11 = Some [] \<and>
   (unat (18446744073709551615 :: size_t) + 3) div 4 = 4611686018427387904 \<and>
   fst (ggml_bitnet_stfma_cache_weights g_cache_initial (Some tensor_a) 16 (Some 10) (Some 11))
     = Some 10 \<and>
   ggml_bitnet_stfma_cache_stats
     (ggml_bitnet_stfma_cache_init
        (snd (ggml_bitnet_stfma_cache_weights g_cache_initial (Some tensor_a) 16
                (Some 10) (Some 11)))) = (0, 0) \<and>
   entries
     (ggml_bitnet_stfma_cache_init
        (snd (ggml_bitnet_stfma_cache_weights g_cache_initial (Some tensor_a) 16
                (Some 10) (Some 11)))) 10 =
     Some \<lparr>stfma_weights = Some 11, size_bytes = 4, next = None\<rparr> \<and>
   map_option length
     (buffers
        (ggml_bitnet_stfma_cache_init
           (snd (ggml_bitnet_stfma_cache_weights g_cache_initial (Some tensor_a) 16
                   (Some 10) (Some 11)))) 11) = Some 4 \<and>
   ggml_bitnet_stfma_get_cached_weights
     (ggml_bitnet_stfma_cache_init
        (snd (ggml_bitnet_stfma_cache_weights g_cache_initial (Some tensor_a) 16
                (Some 10) (Some 11)))) (Some 10) = Inr (Some 11)"
  by (simp add: cache_weights_success g_cache_initial_def ggml_bitnet_stfma_cache_init_def
      ggml_bitnet_stfma_cache_stats_def ggml_bitnet_stfma_get_cached_weights_def)

text \<open>
  Claim C6. In every state, a successful \<^verbatim>\<open>ggml_bitnet_stfma_cache_weights\<close> followed
  by \<^verbatim>\<open>ggml_bitnet_stfma_free_cached_weights\<close> of the handle it returned returns
  without fault, and \<^verbatim>\<open>cache_stats\<close> then reports the values it reported before the
  two calls. Caching tensors of 16, 20 and 4 elements from program start gives the
  statistics \<open>(3, 10)\<close>; freeing the second of them then gives \<open>(2, 5)\<close>.
\<close>

theorem cache_then_free_restores_stats:
  "(n \<noteq> 0 \<longrightarrow>
      (\<exists>st1 st2.
         ggml_bitnet_stfma_cache_weights st (Some raw) n (Some e) (Some b) = (Some e, st1) \<and>
         ggml_bitnet_stfma_free_cached_weights st1 (Some e) = Some (Inr st2) \<and>
         ggml_bitnet_stfma_cache_stats st2 = ggml_bitnet_stfma_cache_stats st)) \<and>
   ggml_bitnet_stfma_cache_stats scenario_A = (3, 10) \<and>
   map_option (map_sum id ggml_bitnet_stfma_cache_stats) scenario_B = Some (Inr (2, 5))"
proof (intro conjI impI)
  assume n: "n \<noteq> 0"
  let ?e = "\<lparr>stfma_weights = Some b, size_bytes = (n + 3) div 4, next = head st\<rparr>"
  let ?st1 = "st\<lparr>entries := (entries st)(e \<mapsto> ?e),
          buffers := (buffers st)(b \<mapsto>
             map (\<lambda>i. convert_bitnet_to_stfma_byte (raw i)) [0..<unat ((n + 3) div 4)]),
          head := Some e,
          num_entries := num_entries st + 1,
          total_bytes := total_bytes st + (n + 3) div 4\<rparr>"
  have c: "ggml_bitnet_stfma_cache_weights st (Some raw) n (Some e) (Some b) = (Some e, ?st1)"
    using n by (rule cache_weights_success)
  have ld: "load_link ?st1 Head_link = Inr (Some e)" by (simp add: load_link_def)
  have en: "entries ?st1 e = Some ?e" by simp
  have sl: "store_link ?st1 Head_link (next ?e) = Inr (?st1\<lparr>head := head st\<rparr>)"
    by (simp add: store_link_def)
  note u = unlink_loop_hit [OF ld en sl]
  have "\<exists>st2. ggml_bitnet_stfma_free_cached_weights ?st1 (Some e) = Some (Inr st2) \<and>
         ggml_bitnet_stfma_cache_stats st2 = ggml_bitnet_stfma_cache_stats st"
    by (simp add: ggml_bitnet_stfma_free_cached_weights_def u free_buffer_def free_entry_def
        ggml_bitnet_stfma_cache_stats_def)
  with c show "\<exists>st1 st2.
         ggml_bitnet_stfma_cache_weights st (Some raw) n (Some e) (Some b) = (Some e, st1) \<and>
         ggml_bitnet_stfma_free_cached_weights st1 (Some e) = Some (Inr st2) \<and>
         ggml_bitnet_stfma_cache_stats st2 = ggml_bitnet_stfma_cache_stats st"
    by blast
qed (rule scenario_A_stats, rule scenario_B_stats)

theorem cache_then_free_restores_stats_witness:
  "(16 :: size_t) \<noteq> 0 \<and>
   (\<exists>st1 st2.
      ggml_bitnet_stfma_cache_weights scenario_A (Some tensor_a) 16 (Some 40) (Some 41) =
        (Some 40, st1) \<and>
      ggml_bitnet_stfma_free_cached_weights st1 (Some 40) = Some (Inr st2) \<and>
      ggml_bitnet_stfma_cache_stats st2 = (3, 10))"
  using cache_then_free_restores_stats
      [where n = 16 and st = scenario_A and raw = tensor_a and e = 40 and b = 41]
  by auto

text \<open>
  Claim C7. \<^verbatim>\<open>ggml_bitnet_stfma_cache_weights\<close> returns null and leaves the whole
  state (so both counters) unchanged when the raw pointer is null or when \<open>n = 0\<close>,
  whatever the allocator would have returned; \<^verbatim>\<open>ggml_bitnet_stfma_get_cached_weights\<close>
  of a null handle is null; \<^verbatim>\<open>ggml_bitnet_stfma_free_cached_weights\<close> of a null handle
  returns with the state unchanged.
\<close>

theorem cache_null_and_zero_handling:
  "ggml_bitnet_stfma_cache_weights st None n malloc_entry malloc_buffer = (None, st) \<and>
   ggml_bitnet_stfma_cache_weights st bitnet_weights 0 malloc_entry malloc_buffer = (None, st) \<and>
   ggml_bitnet_stfma_get_cached_weights st None = Inr None \<and>
   ggml_bitnet_stfma_free_cached_weights st None = Some (Inr st)"
  by (simp add: ggml_bitnet_stfma_cache_weights_def cache_weights_run_def
      ggml_bitnet_stfma_get_cached_weights_def ggml_bitnet_stfma_free_cached_weights_def
      split: option.splits)

text \<open>
  Claim C8. When the allocation of the entry fails, or when it succeeds (with a block
  that was not live before) and the allocation of the buffer fails,
  \<^verbatim>\<open>ggml_bitnet_stfma_cache_weights\<close> returns null and the state after the call is the
  state before it: the entry block is released again, nothing is inserted and the
  counters are unchanged.
\<close>

theorem cache_weights_allocation_failure:
  "ggml_bitnet_stfma_cache_weights st bitnet_weights n None malloc_buffer = (None, st) \<and>
   (entries st e = None \<longrightarrow>
      ggml_bitnet_stfma_cache_weights st bitnet_weights n (Some e) None = (None, st))"
proof (intro conjI impI)
  show "ggml_bitnet_stfma_cache_weights st bitnet_weights n None malloc_buffer = (None, st)"
    by (simp add: ggml_bitnet_stfma_cache_weights_def cache_weights_run_def
        split: option.splits)
next
  assume "entries st e = None"
  then have "(entries st)(e := None) = entries st" by (auto simp: fun_eq_iff)
  then show "ggml_bitnet_stfma_cache_weights st bitnet_weights n (Some e) None = (None, st)"
    by (simp add: ggml_bitnet_stfma_cache_weights_def cache_weights_run_def Let_def
        split: option.splits)
qed

theorem cache_weights_allocation_failure_witness:
  "entries g_cache_initial 10 = None \<and>
   ggml_bitnet_stfma_cache_weights g_cache_initial (Some tensor_a) 16 (Some 10) None =
     (None, g_cache_initial)"
  using cache_weights_allocation_failure
      [where st = g_cache_initial and bitnet_weights = "Some tensor_a" and n = 16 and e = 10]
  by (simp add: g_cache_initial_def)

subsection \<open>The hybrid entry point without cached weights\<close>

text \<open>
  \<^verbatim>\<open>ggml_bitnet_stfma_get_cached_weights\<close> does not look the handle up in the
  registry. In a reachable state it yields null for the null handle only: every
  allocated entry holds a buffer, and a handle that is not an allocated entry is
  dereferenced all the same.
\<close>

lemma get_cached_weights_null_iff:
  assumes "reachable st"
  shows "ggml_bitnet_stfma_get_cached_weights st handle = Inr None \<longleftrightarrow> handle = None"
proof (cases handle)
  case None
  then show ?thesis by (simp add: ggml_bitnet_stfma_get_cached_weights_def)
next
  case (Some h)
  from reachable_invariants [OF assms] have "heap_inv st" by simp
  then have "entries st h = Some e \<Longrightarrow> stfma_weights e \<noteq> None" for e
    unfolding heap_inv_def by fastforce
  with Some show ?thesis
    by (auto simp: ggml_bitnet_stfma_get_cached_weights_def split: option.splits)
qed

text \<open>
  Claim C9. When \<^verbatim>\<open>ggml_vec_dot_i2_i8_s_stfma_hybrid\<close> is called with \<^verbatim>\<open>use_cache\<close>
  true and a handle for which \<^verbatim>\<open>ggml_bitnet_stfma_get_cached_weights\<close> yields null, it
  returns without fault, the float written to the output is \<open>0.0\<close>, and the state
  (cache and scratch buffers) is the state before the call.
\<close>

theorem hybrid_null_cached_weights_yield_zero:
  assumes "ggml_bitnet_stfma_get_cached_weights (cache st) vx = Inr None"
  shows "ggml_vec_dot_i2_i8_s_stfma_hybrid st bytes_at beyond n vx vy True =
           Inr (float32_zero, st)"
  using assms
  by (simp add: ggml_vec_dot_i2_i8_s_stfma_hybrid_def ggml_vec_dot_i2_i8_s_stfma_cached_def)

theorem hybrid_null_cached_weights_yield_zero_witness:
  "ggml_bitnet_stfma_get_cached_weights
     (cache \<lparr>cache = g_cache_initial,
             tl_buffers = \<lparr>int32_buffer = [], encoding_buffer = []\<rparr>\<rparr>) None = Inr None \<and>
   ggml_vec_dot_i2_i8_s_stfma_hybrid
     \<lparr>cache = g_cache_initial, tl_buffers = \<lparr>int32_buffer = [], encoding_buffer = []\<rparr>\<rparr>
     (\<lambda>a i. 0) (\<lambda>i. 0) 16 None (\<lambda>i. 1) True =
   Inr (Float32_of_int32 0,
        \<lparr>cache = g_cache_initial, tl_buffers = \<lparr>int32_buffer = [], encoding_buffer = []\<rparr>\<rparr>)"
  using hybrid_null_cached_weights_yield_zero
    [where st = "\<lparr>cache = g_cache_initial,
                   tl_buffers = \<lparr>int32_buffer = [], encoding_buffer = []\<rparr>\<rparr>"
       and vx = None and bytes_at = "\<lambda>a i. 0" and beyond = "\<lambda>i. 0" and n = 16
       and vy = "\<lambda>i. 1"]
  by (simp add: ggml_bitnet_stfma_get_cached_weights_def float32_zero_def)

subsection \<open>The encoder keeps ternary fields ternary\<close>

lemma nat_less_4_cases: "k < 4 \<Longrightarrow> k = 0 \<or> k = 1 \<or> k = 2 \<or> k = (3::nat)"
  by arith

lemma valid_byte_field: "valid_byte b \<Longrightarrow> k < 4 \<Longrightarrow> valid_field (field b k)"
  by (drule nat_less_4_cases) (auto simp: valid_byte_def)

lemma valid_byte_convert: "valid_byte b \<Longrightarrow> valid_byte (convert_bitnet_to_stfma_byte b)"
  by (simp add: valid_byte_def field_convert valid_field_encode)

lemma sint_decoded_field:
  "valid_field f \<Longrightarrow> sint (ucast f - 1 :: int32_t) \<in> {- 1, 0, 1}"
  by (auto simp: valid_field_def)

lemma decoded_lane_ternary:
  assumes "\<forall>j. valid_byte (raw j)"
    and "x \<in> set (decode_trits_avx512 (unpack_trits_avx512
           (fst (load_uint32 (\<lambda>j. convert_bitnet_to_stfma_byte (raw j)) p))))"
  shows "sint x \<in> {- 1, 0, 1}"
proof -
  from assms(2) obtain k where k: "k < 16"
    "x = ucast (field (convert_bitnet_to_stfma_byte (raw (p + k div 4))) (k mod 4)) - 1"
    by (auto simp: weight_vec_lanes)
  from assms(1) have "valid_byte (convert_bitnet_to_stfma_byte (raw (p + k div 4)))"
    by (simp add: valid_byte_convert)
  then have "valid_field (field (convert_bitnet_to_stfma_byte (raw (p + k div 4))) (k mod 4))"
    by (rule valid_byte_field) simp
  then show ?thesis unfolding k(2) by (rule sint_decoded_field)
qed

lemma scalar_weight_ternary:
  assumes "\<forall>j. valid_byte (raw j)"
  shows "sint (scalar_weight (\<lambda>j. convert_bitnet_to_stfma_byte (raw j)) i) \<in> {- 1, 0, 1}"
proof -
  from assms have "valid_byte (convert_bitnet_to_stfma_byte (raw (i div 4)))"
    by (simp add: valid_byte_convert)
  then have "valid_field (field (convert_bitnet_to_stfma_byte (raw (i div 4))) (i mod 4))"
    by (rule valid_byte_field) simp
  then show ?thesis unfolding scalar_weight_field by (rule sint_decoded_field)
qed

text \<open>
  Claim C10. A byte whose four fields are each 0, 1 or 2 is converted to a byte whose
  four fields are each 0, 1 or 2. Field by field the conversion maps 0 to 2, 1 to 0,
  2 to 1 and 3 to 3. Hence, on the encoding of a tensor whose bytes are all valid,
  every lane the AVX-512 kernel decodes (field minus 1), and every weight the scalar
  path decodes, is \<open>-1\<close>, 0 or 1.
\<close>

theorem convert_preserves_ternary_fields:
  "(valid_byte b \<longrightarrow> valid_byte (convert_bitnet_to_stfma_byte b)) \<and>
   (k < 4 \<longrightarrow>
      (field b k = 0 \<longrightarrow> field (convert_bitnet_to_stfma_byte b) k = 2) \<and>
      (field b k = 1 \<longrightarrow> field (convert_bitnet_to_stfma_byte b) k = 0) \<and>
      (field b k = 2 \<longrightarrow> field (convert_bitnet_to_stfma_byte b) k = 1) \<and>
      (field b k = 3 \<longrightarrow> field (convert_bitnet_to_stfma_byte b) k = 3)) \<and>
   ((\<forall>j. valid_byte (raw j)) \<and>
    x \<in> set (decode_trits_avx512 (unpack_trits_avx512
           (fst (load_uint32 (\<lambda>j. convert_bitnet_to_stfma_byte (raw j)) p)))) \<longrightarrow>
      sint x \<in> {- 1, 0, 1}) \<and>
   ((\<forall>j. valid_byte (raw j)) \<longrightarrow>
      sint (scalar_weight (\<lambda>j. convert_bitnet_to_stfma_byte (raw j)) i) \<in> {- 1, 0, 1})"
  using decoded_lane_ternary [of raw x p] scalar_weight_ternary [of raw i]
  by (simp add: valid_byte_convert field_convert encode_field_spec_values)

theorem convert_preserves_ternary_fields_witness:
  "valid_byte 0x24 \<and> convert_bitnet_to_stfma_byte 0x24 = 0x92 \<and> valid_byte 0x92 \<and>
   (1 :: nat) < 4 \<and> field 0x24 1 = 1 \<and> field (convert_bitnet_to_stfma_byte 0x24) 1 = 0 \<and>
   (\<forall>j. valid_byte (tensor_a j)) \<and>
   sint (scalar_weight (\<lambda>j. convert_bitnet_to_stfma_byte (tensor_a j)) 0) \<in> {- 1, 0, 1}"
proof -
  have v: "valid_byte 0x24" by (simp add: valid_byte_def valid_field_def field_def)
  have c: "convert_bitnet_to_stfma_byte 0x24 = 0x92"
    by (simp add: convert_bitnet_to_stfma_byte_def)
  have f: "field 0x24 1 = 1" by (simp add: field_def)
  from convert_preserves_ternary_fields
    [where b = "0x24" and k = 1 and raw = tensor_a and i = 0 and x = 0 and p = 0] v c f
  show ?thesis by (simp add: tensor_a_def)
qed

end
